theory Spec2Isabelle
  imports Complex_Main "HOL-Library.Word" "HOL-Library.Sublist"
begin

section \<open>Local livestream manager: data model\<close>

text \<open>
  The development follows \<^verbatim>\<open>src/accessories/LocalLivestreamManager.ts\<close>.
  A Node \<^verbatim>\<open>Buffer\<close> is a sequence of bytes.
\<close>

type_synonym buffer = "8 word list"

subsection \<open>Numbers\<close>

text \<open>
  A JavaScript number is an IEEE 754 binary64 value: a finite one, which is a rational, an
  infinity, or not-a-number. The two zeros are not told apart; no operation below depends
  on the sign of a zero. Every operation yields the exact result rounded to the nearest
  binary64 value, ties to the even significand (\<open>round64\<close>).

  \<open>scale_down\<close> and \<open>scale_up\<close> bring the magnitude \<open>m * 2 ^ e\<close> to a significand
  \<open>m\<close> in \<open>[2 ^ 52, 2 ^ 53)\<close>, or to the least exponent \<open>- 1074\<close> of the subnormal
  range; the significand is then rounded to an integer.
\<close>

datatype number = Num rat | PosInfinity | NegInfinity | NaN

definition round_half_even :: "rat \<Rightarrow> int" where
  "round_half_even q =
     (let f = \<lfloor>q\<rfloor>; r = q - of_int f
      in if r < 1 / 2 then f else if r > 1 / 2 then f + 1 else if even f then f else f + 1)"

function scale_down :: "rat \<Rightarrow> int \<Rightarrow> rat \<times> int" where
  "scale_down m e = (if 2 ^ 53 \<le> m then scale_down (m / 2) (e + 1) else (m, e))"
  by pat_completeness auto
termination
proof (relation "measure (\<lambda>(m, e). nat \<lfloor>m\<rfloor>)")
  show "wf (measure (\<lambda>(m, e). nat \<lfloor>m\<rfloor>))" by simp
next
  fix m :: rat and e :: int
  assume a: "2 ^ 53 \<le> m"
  then have "m / 2 \<le> m - 1" by simp
  then have "\<lfloor>m / 2\<rfloor> \<le> \<lfloor>m - 1\<rfloor>" by (rule floor_mono)
  moreover have "0 < \<lfloor>m\<rfloor>" using a by (simp add: floor_less_iff not_less le_floor_iff)
  ultimately show "((m / 2, e + 1), (m, e)) \<in> measure (\<lambda>(m, e). nat \<lfloor>m\<rfloor>)"
    by simp
qed

function scale_up :: "rat \<Rightarrow> int \<Rightarrow> rat \<times> int" where
  "scale_up m e = (if m < 2 ^ 52 \<and> - 1074 < e then scale_up (m * 2) (e - 1) else (m, e))"
  by pat_completeness auto
termination
  by (relation "measure (\<lambda>(m, e). nat (e + 1074))") auto

declare scale_down.simps [simp del] scale_up.simps [simp del]

definition pow2 :: "int \<Rightarrow> rat" where
  "pow2 e = (if 0 \<le> e then 2 ^ nat e else 1 / 2 ^ nat (- e))"

definition round64 :: "rat \<Rightarrow> number" where
  "round64 x =
     (if x = 0 then Num 0
      else case scale_down \<bar>x\<bar> 0 of
        (m1, e1) \<Rightarrow>
          (case scale_up m1 e1 of
             (m, e) \<Rightarrow>
               (let y = of_int (round_half_even m) * pow2 e
                in if 2 ^ 1024 \<le> y then (if x < 0 then NegInfinity else PosInfinity)
                   else Num (if x < 0 then - y else y))))"

text \<open>The operators \<^verbatim>\<open>-\<close>, \<^verbatim>\<open>*\<close> and \<^verbatim>\<open>>\<close> on numbers.\<close>

fun num_sub :: "number \<Rightarrow> number \<Rightarrow> number" where
  "num_sub (Num a) (Num b) = round64 (a - b)"
| "num_sub NaN y = NaN"
| "num_sub x NaN = NaN"
| "num_sub PosInfinity PosInfinity = NaN"
| "num_sub NegInfinity NegInfinity = NaN"
| "num_sub PosInfinity y = PosInfinity"
| "num_sub NegInfinity y = NegInfinity"
| "num_sub (Num a) PosInfinity = NegInfinity"
| "num_sub (Num a) NegInfinity = PosInfinity"

fun negative :: "number \<Rightarrow> bool" where
  "negative (Num a) = (a < 0)"
| "negative NegInfinity = True"
| "negative x = False"

fun num_mul :: "number \<Rightarrow> number \<Rightarrow> number" where
  "num_mul (Num a) (Num b) = round64 (a * b)"
| "num_mul NaN y = NaN"
| "num_mul x NaN = NaN"
| "num_mul x y =
     (if x = Num 0 \<or> y = Num 0 then NaN
      else if negative x = negative y then PosInfinity else NegInfinity)"

fun num_gt :: "number \<Rightarrow> number \<Rightarrow> bool" where
  "num_gt (Num a) (Num b) = (b < a)"
| "num_gt NaN y = False"
| "num_gt x NaN = False"
| "num_gt PosInfinity y = (y \<noteq> PosInfinity)"
| "num_gt x NegInfinity = (x \<noteq> NegInfinity)"
| "num_gt x y = False"

text \<open>
  Division by a literal: the divisor is a finite number other than zero (the file divides
  by \<^verbatim>\<open>1000\<close> only).
\<close>

fun num_div :: "number \<Rightarrow> rat \<Rightarrow> number" where
  "num_div (Num a) d = round64 (a / d)"
| "num_div NaN d = NaN"
| "num_div x d = (if negative x = (d < 0) then PosInfinity else NegInfinity)"

text \<open>\<^verbatim>\<open>Date.now()\<close> is an integer, and a number.\<close>

definition num_of_time :: "int \<Rightarrow> number" where
  "num_of_time t = round64 (of_int t)"

subsection \<open>Key-frame classifier\<close>

text \<open>
  \<^verbatim>\<open>isIFrame(data)\<close>: the parameter has type \<^verbatim>\<open>Buffer\<close>, so the
  \<^verbatim>\<open>data !== undefined\<close> test is always true; \<^verbatim>\<open>data.slice(0, 5)\<close> is
  \<open>take 5\<close> and \<^verbatim>\<open>Array.includes\<close> compares the byte, read as a number, with
  the entries of \<^verbatim>\<open>validValues\<close>.
\<close>

definition validValues :: "nat list" where
  "validValues = [64, 66, 68, 78, 101, 103]"

definition array_includes :: "nat list \<Rightarrow> nat \<Rightarrow> bool" where
  "array_includes xs v = List.member xs v"

definition isIFrame :: "buffer \<Rightarrow> bool" where
  "isIFrame data =
     (if length data > 0 then
        (if length data \<ge> 5 then
           (let startcode = map unat (take 5 data) in
            if array_includes validValues (startcode ! 3) \<or> array_includes validValues (startcode ! 4)
            then True else False)
         else False)
      else False)"

subsection \<open>Store, timers and promises\<close>

text \<open>
  JavaScript arrays and objects are shared by reference. The arrays that a claim can
  observe through two names live in an explicit store, addressed by a \<open>ref\<close>; the same
  counter gives every \<^verbatim>\<open>ProxyStream\<close> object its identity.
\<close>

type_synonym ref = nat

text \<open>
  Outcome of \<^verbatim>\<open>Readable.push\<close>, decided by Node: it returns whether the consumer
  can take more, or it throws (the case \<^verbatim>\<open>newVideoData\<close> catches and logs).
\<close>

datatype push_result = Returns bool | Throws

text \<open>The three \<^verbatim>\<open>setTimeout\<close> callbacks of the file.\<close>

datatype timer_action =
    KillProxy nat \<comment> \<open>\<^verbatim>\<open>resetKillTimeout\<close>: \<^verbatim>\<open>manager.stopProxyStream(livestreamId)\<close>\<close>
  | ConnectionTimedOut nat \<comment> \<open>\<^verbatim>\<open>startAndGetLocalLiveStream\<close>, for the call with this number\<close>
  | CacheTermination \<comment> \<open>\<^verbatim>\<open>scheduleLivestreamCacheTermination\<close>\<close>

datatype promise = Pending | Resolved ref | Rejected string

datatype upstream_cmd = StartStationLivestream | StopStationLivestream

record AudiostreamProxy =
  a_cacheData :: "buffer list"
  a_pushNewDataImmediately :: bool
  a_destroyed :: bool
  a_delivered :: "buffer list"

record VideostreamProxy =
  livestreamId :: nat
  v_cacheData :: ref
  v_killTimeout :: "nat option"
  v_pushNewDataImmediately :: bool
  v_destroyed :: bool
  v_delivered :: "buffer list"

record ProxyStream =
  oid :: ref
  ps_id :: nat
  videostream :: VideostreamProxy
  audiostream :: AudiostreamProxy

text \<open>
  The manager, with the parts of its environment that its methods act on: the store,
  Node's pending timers (handle, due time in milliseconds, callback), the
  \<^verbatim>\<open>once('livestream start')\<close> listeners and the promises of the
  \<^verbatim>\<open>getLocalLivestream\<close> calls (both by call number), the calls made on
  \<^verbatim>\<open>eufyClient\<close>, and what \<^verbatim>\<open>getCameraMaxLivestreamDuration\<close> returns.
  \<open>stationStream\<close> tells whether the field is non-null. \<open>a_delivered\<close> and
  \<open>v_delivered\<close> record what the outlet handed to \<^verbatim>\<open>Readable.push\<close>, in order.
  \<^verbatim>\<open>Date.now()\<close> is an integer number of milliseconds.
\<close>

record manager =
  arrays :: "ref \<Rightarrow> buffer list"
  nextRef :: ref
  stationStream :: bool
  livestreamCount :: nat
  iFrameCache :: ref
  proxyStreams :: "ProxyStream list"
  cacheEnabled :: bool
  connectionTimeout :: "nat option"
  terminationTimeout :: "nat option"
  livestreamStartedAt :: "int option"
  livestreamIsStarting :: bool
  timers :: "(nat \<times> int \<times> timer_action) list"
  nextTimer :: nat
  listeners :: "nat list"
  promises :: "promise list"
  upstream :: "upstream_cmd list"
  cameraMaxLivestreamDuration :: number

definition SECONDS_UNTIL_TERMINATION_AFTER_LAST_USED :: int where
  "SECONDS_UNTIL_TERMINATION_AFTER_LAST_USED = 45"

definition CONNECTION_ESTABLISHED_TIMEOUT :: int where
  "CONNECTION_ESTABLISHED_TIMEOUT = 5"

definition new_array :: "buffer list \<Rightarrow> manager \<Rightarrow> ref \<times> manager" where
  "new_array xs m =
     (nextRef m, m\<lparr>arrays := (arrays m)(nextRef m := xs), nextRef := Suc (nextRef m)\<rparr>)"

definition setTimeout :: "timer_action \<Rightarrow> int \<Rightarrow> int \<Rightarrow> manager \<Rightarrow> nat \<times> manager" where
  "setTimeout cb delay now m =
     (nextTimer m,
      m\<lparr>timers := timers m @ [(nextTimer m, now + delay, cb)], nextTimer := Suc (nextTimer m)\<rparr>)"

definition clearTimeout :: "nat \<Rightarrow> manager \<Rightarrow> manager" where
  "clearTimeout h m = m\<lparr>timers := filter (\<lambda>tm. fst tm \<noteq> h) (timers m)\<rparr>"

text \<open>\<^verbatim>\<open>if (t) { clearTimeout(t); }\<close>: the field keeps the handle afterwards.\<close>

definition clearIfSet :: "nat option \<Rightarrow> manager \<Rightarrow> manager" where
  "clearIfSet t m = (case t of None \<Rightarrow> m | Some h \<Rightarrow> clearTimeout h m)"

text \<open>Settling a promise that is already settled does nothing.\<close>

definition settle :: "nat \<Rightarrow> promise \<Rightarrow> manager \<Rightarrow> manager" where
  "settle c v m =
     (if c < length (promises m) \<and> promises m ! c = Pending
      then m\<lparr>promises := (promises m)[c := v]\<rparr> else m)"

definition update_proxy :: "ProxyStream \<Rightarrow> manager \<Rightarrow> manager" where
  "update_proxy p m =
     m\<lparr>proxyStreams := map (\<lambda>q. if oid q = oid p then p else q) (proxyStreams m)\<rparr>"

text \<open>
  \<^verbatim>\<open>Set.prototype.forEach\<close> visits the members in insertion order and skips a member
  deleted before its turn; the callback sees the object as it is then. No callback in
  this file adds a member.
\<close>

fun forEach_from :: "(ProxyStream \<Rightarrow> manager \<Rightarrow> manager) \<Rightarrow> ref list \<Rightarrow> manager \<Rightarrow> manager" where
  "forEach_from f [] m = m"
| "forEach_from f (r # rs) m =
     forEach_from f rs
       (case find (\<lambda>p. oid p = r) (proxyStreams m) of None \<Rightarrow> m | Some p \<Rightarrow> f p m)"

definition forEach :: "(ProxyStream \<Rightarrow> manager \<Rightarrow> manager) \<Rightarrow> manager \<Rightarrow> manager" where
  "forEach f m = forEach_from f (map oid (proxyStreams m)) m"

subsection \<open>AudiostreamProxy\<close>

definition new_AudiostreamProxy :: AudiostreamProxy where
  "new_AudiostreamProxy =
     \<lparr>a_cacheData = [], a_pushNewDataImmediately = False, a_destroyed = False, a_delivered = []\<rparr>"

text \<open>A destroyed \<^verbatim>\<open>Readable\<close> takes nothing from \<^verbatim>\<open>push\<close>.\<close>

definition newAudioData :: "buffer \<Rightarrow> AudiostreamProxy \<Rightarrow> AudiostreamProxy" where
  "newAudioData data a =
     (if a_pushNewDataImmediately a then
        (let a1 = a\<lparr>a_pushNewDataImmediately := False\<rparr>
         in if a_destroyed a1 then a1 else a1\<lparr>a_delivered := a_delivered a1 @ [data]\<rparr>)
      else a\<lparr>a_cacheData := a_cacheData a @ [data]\<rparr>)"

text \<open>
  The loop of \<^verbatim>\<open>_read\<close>: \<^verbatim>\<open>while (cacheData.length > 0 && pushReturn)\<close>. The first
  argument is the number of pushes that return true before one returns false; the
  result is the queue left, what was pushed, and \<^verbatim>\<open>pushReturn\<close> at the exit.
\<close>

fun drain :: "nat \<Rightarrow> buffer list \<Rightarrow> buffer list \<Rightarrow> buffer list \<times> buffer list \<times> bool" where
  "drain k [] out = ([], out, True)"
| "drain 0 (d # q) out = (q, out @ [d], False)"
| "drain (Suc k) (d # q) out = drain k q (out @ [d])"

definition audio_read :: "nat \<Rightarrow> AudiostreamProxy \<Rightarrow> AudiostreamProxy" where
  "audio_read k a =
     (case drain k (a_cacheData a) (a_delivered a) of
        (q, out, pushReturn) \<Rightarrow>
          (let a1 = a\<lparr>a_cacheData := q, a_delivered := out\<rparr>
           in if pushReturn then a1\<lparr>a_pushNewDataImmediately := True\<rparr> else a1))"

definition audio_stopProxyStream :: "AudiostreamProxy \<Rightarrow> AudiostreamProxy" where
  "audio_stopProxyStream a = a\<lparr>a_destroyed := True\<rparr>"

text \<open>
  What an audio outlet sees from outside: data produced for it, and read requests of its
  consumer.
\<close>

datatype outlet_op = Produce buffer | Consume nat

fun audio_op :: "outlet_op \<Rightarrow> AudiostreamProxy \<Rightarrow> AudiostreamProxy" where
  "audio_op (Produce data) a = newAudioData data a"
| "audio_op (Consume k) a = audio_read k a"

fun produced :: "outlet_op list \<Rightarrow> buffer list" where
  "produced [] = []"
| "produced (Produce data # ops) = data # produced ops"
| "produced (Consume k # ops) = produced ops"

subsection \<open>VideostreamProxy\<close>

definition resetKillTimeout :: "int \<Rightarrow> VideostreamProxy \<Rightarrow> manager \<Rightarrow> VideostreamProxy \<times> manager" where
  "resetKillTimeout now v m =
     (case setTimeout (KillProxy (livestreamId v)) 15000 now (clearIfSet (v_killTimeout v) m) of
        (h, m1) \<Rightarrow> (v\<lparr>v_killTimeout := Some h\<rparr>, m1))"

text \<open>The constructor stores the array it is given: \<^verbatim>\<open>this.cacheData = cacheData\<close>.\<close>

definition new_VideostreamProxy :: "nat \<Rightarrow> ref \<Rightarrow> int \<Rightarrow> manager \<Rightarrow> VideostreamProxy \<times> manager" where
  "new_VideostreamProxy i cacheData now m =
     resetKillTimeout now
       \<lparr>livestreamId = i, v_cacheData = cacheData, v_killTimeout = None,
        v_pushNewDataImmediately = False, v_destroyed = False, v_delivered = []\<rparr> m"

definition newVideoData ::
  "buffer \<Rightarrow> push_result \<Rightarrow> int \<Rightarrow> VideostreamProxy \<Rightarrow> manager \<Rightarrow> VideostreamProxy \<times> manager" where
  "newVideoData data r now v m =
     (if v_pushNewDataImmediately v then
        (let v1 = v\<lparr>v_pushNewDataImmediately := False\<rparr>
         in if v_destroyed v1 then (v1, m)
            else (case r of
                    Throws \<Rightarrow> (v1, m)
                  | Returns b \<Rightarrow>
                      (let v2 = v1\<lparr>v_delivered := v_delivered v1 @ [data]\<rparr>
                       in if b then resetKillTimeout now v2 m else (v2, m))))
      else (v, m\<lparr>arrays := (arrays m)(v_cacheData v := arrays m (v_cacheData v) @ [data])\<rparr>))"

definition video_read :: "nat \<Rightarrow> int \<Rightarrow> VideostreamProxy \<Rightarrow> manager \<Rightarrow> VideostreamProxy \<times> manager" where
  "video_read k now v m =
     (case resetKillTimeout now v m of
        (v1, m1) \<Rightarrow>
          (case drain k (arrays m1 (v_cacheData v1)) (v_delivered v1) of
             (q, out, pushReturn) \<Rightarrow>
               (let v2 = v1\<lparr>v_delivered := out\<rparr>;
                    m2 = m1\<lparr>arrays := (arrays m1)(v_cacheData v1 := q)\<rparr>
                in (if pushReturn then v2\<lparr>v_pushNewDataImmediately := True\<rparr> else v2, m2))))"

definition video_stopProxyStream :: "VideostreamProxy \<Rightarrow> manager \<Rightarrow> VideostreamProxy \<times> manager" where
  "video_stopProxyStream v m = (v\<lparr>v_destroyed := True\<rparr>, clearIfSet (v_killTimeout v) m)"

subsection \<open>LocalLivestreamManager\<close>

definition initialize :: "manager \<Rightarrow> manager" where
  "initialize m =
     (case new_array [] (m\<lparr>stationStream := False\<rparr>) of
        (r, m1) \<Rightarrow>
          (let m2 = m1\<lparr>iFrameCache := r, livestreamStartedAt := None\<rparr>;
               m3 = clearIfSet (connectionTimeout m2) m2
           in clearIfSet (terminationTimeout m3) m3))"

text \<open>The state the constructor leaves, before any event.\<close>

definition new_manager :: "bool \<Rightarrow> number \<Rightarrow> manager" where
  "new_manager cache maxDuration =
     initialize
       \<lparr>arrays = (\<lambda>_. []), nextRef = 0, stationStream = False, livestreamCount = 0,
        iFrameCache = 0, proxyStreams = [], cacheEnabled = cache, connectionTimeout = None,
        terminationTimeout = None, livestreamStartedAt = None, livestreamIsStarting = False,
        timers = [], nextTimer = 0, listeners = [], promises = [], upstream = [],
        cameraMaxLivestreamDuration = maxDuration\<rparr>"

definition stopLocalLiveStream :: "manager \<Rightarrow> manager" where
  "stopLocalLiveStream m = m\<lparr>upstream := upstream m @ [StopStationLivestream]\<rparr>"

definition scheduleLivestreamCacheTermination :: "int \<Rightarrow> manager \<Rightarrow> manager" where
  "scheduleLivestreamCacheTermination now m =
     (case setTimeout CacheTermination (SECONDS_UNTIL_TERMINATION_AFTER_LAST_USED * 1000) now
             (clearIfSet (terminationTimeout m) m) of
        (h, m1) \<Rightarrow> m1\<lparr>terminationTimeout := Some h\<rparr>)"

text \<open>The callback of the timer set by \<open>scheduleLivestreamCacheTermination\<close>.\<close>

definition cacheTerminationCallback :: "manager \<Rightarrow> manager" where
  "cacheTerminationCallback m =
     (if length (proxyStreams m) \<le> 0 then stopLocalLiveStream m else m)"

text \<open>
  \<^verbatim>\<open>removeProxyStream(id)\<close>: the loop keeps the last member with that id; the
  termination policy runs when the set has become empty. Its arithmetic is that of
  numbers: \<^verbatim>\<open>0.2\<close> is the binary64 value nearest to one fifth, and the difference, the
  quotient and the product are each rounded.
\<close>

definition removeProxyStream :: "nat \<Rightarrow> int \<Rightarrow> manager \<Rightarrow> manager" where
  "removeProxyStream i now m =
     (case rev (filter (\<lambda>p. ps_id p = i) (proxyStreams m)) of
        [] \<Rightarrow> m
      | proxyStream # _ \<Rightarrow>
          (let m1 = m\<lparr>proxyStreams := filter (\<lambda>q. oid q \<noteq> oid proxyStream) (proxyStreams m)\<rparr>
           in if length (proxyStreams m1) = 0 then
                (let maxStreamingDuration = cameraMaxLivestreamDuration m1;
                     runtime = num_div (num_sub (num_of_time now)
                                  (num_of_time (case livestreamStartedAt m1 of
                                                  Some t \<Rightarrow> t | None \<Rightarrow> now))) 1000
                 in if num_gt (num_sub maxStreamingDuration runtime)
                              (num_mul maxStreamingDuration (round64 0.2))
                       \<and> num_gt (num_sub maxStreamingDuration runtime) (Num 20)
                       \<and> cacheEnabled m1
                    then scheduleLivestreamCacheTermination now m1
                    else stopLocalLiveStream m1)
              else m1))"

text \<open>Both outlets of a pair are stopped together wherever the file stops one.\<close>

definition stopStreams :: "ProxyStream \<Rightarrow> manager \<Rightarrow> manager" where
  "stopStreams p m =
     (case video_stopProxyStream (videostream p) m of
        (v, m1) \<Rightarrow>
          update_proxy (p\<lparr>audiostream := audio_stopProxyStream (audiostream p),
                          videostream := v\<rparr>) m1)"

definition stopProxyStream :: "nat \<Rightarrow> int \<Rightarrow> manager \<Rightarrow> manager" where
  "stopProxyStream i now m =
     forEach (\<lambda>pStream m'. if ps_id pStream = i
                            then removeProxyStream i now (stopStreams pStream m') else m') m"

definition stopAllProxyStreams :: "int \<Rightarrow> manager \<Rightarrow> manager" where
  "stopAllProxyStreams now m =
     forEach (\<lambda>proxyStream m'. stopProxyStream (ps_id proxyStream) now m') m"

definition getProxyStream :: "int \<Rightarrow> manager \<Rightarrow> ProxyStream option \<times> manager" where
  "getProxyStream now m =
     (if stationStream m then
        (let i = livestreamCount m;
             m1 = m\<lparr>livestreamCount := livestreamCount m + 1\<rparr>;
             m2 = (if livestreamCount m1 > 1024 then m1\<lparr>livestreamCount := 0\<rparr> else m1)
         in case new_VideostreamProxy i (iFrameCache m2) now m2 of
              (v, m3) \<Rightarrow>
                (let proxyStream = \<lparr>oid = nextRef m3, ps_id = i, videostream = v,
                                    audiostream = new_AudiostreamProxy\<rparr>
                 in (Some proxyStream,
                     m3\<lparr>nextRef := Suc (nextRef m3),
                        proxyStreams := proxyStreams m3 @ [proxyStream]\<rparr>)))
      else (None, m))"

definition startAndGetLocalLiveStream :: "nat \<Rightarrow> int \<Rightarrow> manager \<Rightarrow> manager" where
  "startAndGetLocalLiveStream c now m =
     (let m1 = (if \<not> livestreamIsStarting m
                then m\<lparr>livestreamIsStarting := True,
                       upstream := upstream m @ [StartStationLivestream]\<rparr>
                else m);
          m2 = clearIfSet (connectionTimeout m1) m1
      in case setTimeout (ConnectionTimedOut c) (CONNECTION_ESTABLISHED_TIMEOUT * 1000) now m2 of
           (h, m3) \<Rightarrow> m3\<lparr>connectionTimeout := Some h, listeners := listeners m3 @ [c]\<rparr>)"

text \<open>The callback of the connection timer of call \<open>c\<close>.\<close>

definition connectionTimeoutCallback :: "nat \<Rightarrow> manager \<Rightarrow> manager" where
  "connectionTimeoutCallback c m =
     settle c (Rejected ''no started livestream found'') (m\<lparr>livestreamIsStarting := False\<rparr>)"

text \<open>The \<^verbatim>\<open>once('livestream start')\<close> listener of call \<open>c\<close>.\<close>

definition livestreamStartListener :: "int \<Rightarrow> nat \<Rightarrow> manager \<Rightarrow> manager" where
  "livestreamStartListener now c m =
     (case getProxyStream now (clearIfSet (connectionTimeout m) m) of
        (Some proxyStream, m1) \<Rightarrow>
          settle c (Resolved (oid proxyStream)) (m1\<lparr>livestreamIsStarting := False\<rparr>)
      | (None, m1) \<Rightarrow> settle c (Rejected ''no started livestream found'') m1)"

text \<open>
  \<^verbatim>\<open>getLocalLivestream\<close>. Its \<^verbatim>\<open>await\<close>s are on values that are not promises, so no
  event of the environment runs between its parts, and the call is one step.
\<close>

definition getLocalLivestream :: "int \<Rightarrow> manager \<Rightarrow> manager" where
  "getLocalLivestream now m =
     (let c = length (promises m);
          m0 = m\<lparr>promises := promises m @ [Pending]\<rparr>;
          m1 = clearIfSet (terminationTimeout m0) m0
      in case getProxyStream now m1 of
           (Some proxyStream, m2) \<Rightarrow> settle c (Resolved (oid proxyStream)) m2
         | (None, m2) \<Rightarrow> startAndGetLocalLiveStream c now m2)"

definition onStationLivestreamStop :: "int \<Rightarrow> manager \<Rightarrow> manager" where
  "onStationLivestreamStop now m =
     initialize
       (forEach (\<lambda>proxyStream m'. removeProxyStream (ps_id proxyStream) now
                                     (stopStreams proxyStream m')) m)"

text \<open>
  \<^verbatim>\<open>emit('livestream start')\<close> runs the listeners registered so far, in order, each
  once.
\<close>

definition onStationLivestreamStart :: "int \<Rightarrow> manager \<Rightarrow> manager" where
  "onStationLivestreamStart now m =
     (let m1 = (initialize m)\<lparr>livestreamStartedAt := Some now, stationStream := True\<rparr>
      in fold (livestreamStartListener now) (listeners m1) (m1\<lparr>listeners := []\<rparr>))"

definition onVideoData :: "buffer \<Rightarrow> (ref \<Rightarrow> push_result) \<Rightarrow> int \<Rightarrow> manager \<Rightarrow> manager" where
  "onVideoData data pr now m =
     (let m1 = (if isIFrame data then
                  (case new_array [data] m of (r, m') \<Rightarrow> m'\<lparr>iFrameCache := r\<rparr>)
                else if length (arrays m (iFrameCache m)) > 0 then
                  m\<lparr>arrays := (arrays m)(iFrameCache m := arrays m (iFrameCache m) @ [data])\<rparr>
                else m)
      in forEach (\<lambda>proxyStream m'.
                    case newVideoData data (pr (oid proxyStream)) now (videostream proxyStream) m' of
                      (v, m'') \<Rightarrow> update_proxy (proxyStream\<lparr>videostream := v\<rparr>) m'') m1)"

definition onAudioData :: "buffer \<Rightarrow> manager \<Rightarrow> manager" where
  "onAudioData data m =
     forEach (\<lambda>proxyStream m'.
                update_proxy (proxyStream\<lparr>audiostream := newAudioData data (audiostream proxyStream)\<rparr>) m') m"

text \<open>The four \<^verbatim>\<open>error\<close> and \<^verbatim>\<open>end\<close> handlers of the two upstream streams are alike.\<close>

definition onStreamErrorOrEnd :: "int \<Rightarrow> manager \<Rightarrow> manager" where
  "onStreamErrorOrEnd now m = initialize (stopLocalLiveStream (stopAllProxyStreams now m))"

subsection \<open>Events\<close>

text \<open>
  Handlers run to completion, one event at a time. An event is a call of a public
  method, a notification of the client (the flag tells whether it is for this
  manager's device), data, error or end on the upstream streams of the current session,
  Node asking an outlet for data (\<^verbatim>\<open>_read\<close>, with the number of pushes that return
  true), or a pending timer firing. Each comes with \<^verbatim>\<open>Date.now()\<close>. An outlet is
  followed while its pair is in \<open>proxyStreams\<close>.
\<close>

datatype event =
    GetLocalLivestream
  | StopProxyStream nat
  | StopLocalLiveStream
  | StationLivestreamStart bool
  | StationLivestreamStop bool
  | VideoData buffer "ref \<Rightarrow> push_result"
  | AudioData buffer
  | StreamErrorOrEnd
  | VideoRead ref nat
  | AudioRead ref nat
  | TimerFires nat

definition runTimer :: "timer_action \<Rightarrow> int \<Rightarrow> manager \<Rightarrow> manager" where
  "runTimer cb now m =
     (case cb of
        KillProxy i \<Rightarrow> stopProxyStream i now m
      | ConnectionTimedOut c \<Rightarrow> connectionTimeoutCallback c m
      | CacheTermination \<Rightarrow> cacheTerminationCallback m)"

fun step :: "int \<times> event \<Rightarrow> manager \<Rightarrow> manager" where
  "step (now, GetLocalLivestream) m = getLocalLivestream now m"
| "step (now, StopProxyStream i) m = stopProxyStream i now m"
| "step (now, StopLocalLiveStream) m = stopLocalLiveStream m"
| "step (now, StationLivestreamStart same) m = (if same then onStationLivestreamStart now m else m)"
| "step (now, StationLivestreamStop same) m = (if same then onStationLivestreamStop now m else m)"
| "step (now, VideoData data pr) m = (if stationStream m then onVideoData data pr now m else m)"
| "step (now, AudioData data) m = (if stationStream m then onAudioData data m else m)"
| "step (now, StreamErrorOrEnd) m = (if stationStream m then onStreamErrorOrEnd now m else m)"
| "step (now, VideoRead r k) m =
     (case find (\<lambda>p. oid p = r) (proxyStreams m) of
        None \<Rightarrow> m
      | Some p \<Rightarrow>
          if v_destroyed (videostream p) then m
          else (case video_read k now (videostream p) m of
                  (v, m1) \<Rightarrow> update_proxy (p\<lparr>videostream := v\<rparr>) m1))"
| "step (now, AudioRead r k) m =
     (case find (\<lambda>p. oid p = r) (proxyStreams m) of
        None \<Rightarrow> m
      | Some p \<Rightarrow>
          if a_destroyed (audiostream p) then m
          else update_proxy (p\<lparr>audiostream := audio_read k (audiostream p)\<rparr>) m)"
| "step (now, TimerFires h) m =
     (case find (\<lambda>tm. fst tm = h \<and> fst (snd tm) \<le> now) (timers m) of
        None \<Rightarrow> m
      | Some tm \<Rightarrow> runTimer (snd (snd tm)) now (clearTimeout h m))"

definition exec :: "(int \<times> event) list \<Rightarrow> manager \<Rightarrow> manager" where
  "exec es m = fold step es m"

subsection \<open>Example runs\<close>

text \<open>
  A key frame, two other video buffers, and a consumer side that always accepts.
\<close>

definition key_frame :: buffer where
  "key_frame = [0, 0, 0, 1, 103, 1]"

definition delta_frame1 :: buffer where
  "delta_frame1 = [0, 0, 0, 1, 65, 1]"

definition delta_frame2 :: buffer where
  "delta_frame2 = [0, 0, 0, 1, 65, 2]"

definition accepting :: "ref \<Rightarrow> push_result" where
  "accepting = (\<lambda>_. Returns True)"

text \<open>
  A manager with caching enabled and a maximal session duration of 100 seconds; one
  consumer asks for the stream and the station starts it at time 0.
\<close>

definition one_consumer :: manager where
  "one_consumer =
     exec [(0, GetLocalLivestream), (0, StationLivestreamStart True)] (new_manager True (Num 100))"

text \<open>The same with a maximal session duration of 102 seconds.\<close>

definition boundary_consumer :: manager where
  "boundary_consumer =
     exec [(0, GetLocalLivestream), (0, StationLivestreamStart True)] (new_manager True (Num 102))"

text \<open>
  Then a key frame arrives and a second consumer attaches; its pair is the object 4.
\<close>

definition second_consumer :: manager where
  "second_consumer =
     exec [(100, VideoData key_frame accepting), (200, GetLocalLivestream)] one_consumer"

text \<open>The queue of the video outlet of each attached pair, and what each has delivered.\<close>

definition video_queues :: "manager \<Rightarrow> buffer list list" where
  "video_queues m = map (\<lambda>p. arrays m (v_cacheData (videostream p))) (proxyStreams m)"

definition video_delivered :: "manager \<Rightarrow> buffer list list" where
  "video_delivered m = map (\<lambda>p. v_delivered (videostream p)) (proxyStreams m)"

subsection \<open>Identifiers of the attached pairs\<close>

text \<open>
  The identifiers of the attached pairs in insertion order, and the objects with their
  identifiers. \<open>refs_ok\<close> says that the objects of the set are distinct and were all
  allocated; \<open>shrinks m m'\<close> that \<open>m'\<close> has lost members of \<open>m\<close> at most.
\<close>

definition ids :: "manager \<Rightarrow> nat list" where
  "ids m = map ps_id (proxyStreams m)"

definition keys :: "manager \<Rightarrow> (ref \<times> nat) list" where
  "keys m = map (\<lambda>p. (oid p, ps_id p)) (proxyStreams m)"

definition refs_ok :: "manager \<Rightarrow> bool" where
  "refs_ok m \<longleftrightarrow> distinct (map fst (keys m)) \<and> (\<forall>k \<in> set (keys m). fst k < nextRef m)"

definition shrinks :: "manager \<Rightarrow> manager \<Rightarrow> bool" where
  "shrinks m m' \<longleftrightarrow> subseq (keys m') (keys m) \<and> nextRef m \<le> nextRef m'"

definition below :: "manager \<Rightarrow> manager \<Rightarrow> bool" where
  "below m0 m \<longleftrightarrow> refs_ok m \<and> shrinks m0 m"

text \<open>
  The counter update of \<^verbatim>\<open>getProxyStream\<close>, and the identifiers an event hands out:
  one for a \<^verbatim>\<open>getLocalLivestream\<close> call that finds a session, one for each waiting
  listener when the station reports the start.
\<close>

definition nextCount :: "nat \<Rightarrow> nat" where
  "nextCount c = (if c + 1 > 1024 then 0 else c + 1)"

fun issue :: "nat \<Rightarrow> nat \<Rightarrow> nat list" where
  "issue 0 c = []"
| "issue (Suc n) c = c # issue n (nextCount c)"

fun issued :: "int \<times> event \<Rightarrow> manager \<Rightarrow> nat list" where
  "issued (now, GetLocalLivestream) m = (if stationStream m then [livestreamCount m] else [])"
| "issued (now, StationLivestreamStart same) m =
     (if same then issue (length (listeners m)) (livestreamCount m) else [])"
| "issued (now, e) m = []"

text \<open>
  The number of identifiers handed out in a run, and the pairs of \<open>m\<close> that were
  created after the state \<open>m1\<close>: the objects that \<open>m1\<close> had not yet allocated.
\<close>

fun handed_out :: "(int \<times> event) list \<Rightarrow> manager \<Rightarrow> nat" where
  "handed_out [] m = 0"
| "handed_out (e # es) m = length (issued e m) + handed_out es (step e m)"

definition attached_since :: "manager \<Rightarrow> manager \<Rightarrow> ProxyStream list" where
  "attached_since m1 m = filter (\<lambda>p. nextRef m1 \<le> oid p) (proxyStreams m)"

text \<open>
  The shape of one step and of a run on the attached pairs: pairs are lost or kept in
  order, the new ones are appended with the identifiers handed out, and the counter has
  advanced by their number.
\<close>

definition step_shape :: "int \<times> event \<Rightarrow> manager \<Rightarrow> manager \<Rightarrow> bool" where
  "step_shape e m m' \<longleftrightarrow>
     (\<exists>ks nk. keys m' = ks @ nk \<and> subseq ks (keys m) \<and> map snd nk = issued e m \<and>
              (\<forall>k \<in> set nk. nextRef m \<le> fst k)) \<and>
     refs_ok m' \<and> nextRef m \<le> nextRef m' \<and>
     livestreamCount m' = (nextCount ^^ length (issued e m)) (livestreamCount m)"

definition run_shape :: "manager \<Rightarrow> nat \<Rightarrow> manager \<Rightarrow> bool" where
  "run_shape m1 k m \<longleftrightarrow>
     refs_ok m \<and> nextRef m1 \<le> nextRef m \<and>
     livestreamCount m = (nextCount ^^ k) (livestreamCount m1) \<and>
     subseq (map snd (filter (\<lambda>x. nextRef m1 \<le> fst x) (keys m))) (issue k (livestreamCount m1)) \<and>
     subseq (filter (\<lambda>x. fst x < nextRef m1) (keys m)) (keys m1)"

text \<open>
  One consumer attaches and detaches again; and the run in which this happens 1024
  times, with the identifiers 1 to 1024, before one more consumer attaches.
\<close>

definition attach_detach :: "nat \<Rightarrow> (int \<times> event) list" where
  "attach_detach i = [(int i, GetLocalLivestream), (int i, StopProxyStream i)]"

definition wraparound_run :: "(int \<times> event) list" where
  "wraparound_run = concat (map attach_detach [1..<1025]) @ [(1025, GetLocalLivestream)]"

section \<open>Evaluation of concrete runs\<close>

lemmas model_defs = exec_def new_manager_def initialize_def new_array_def setTimeout_def
  clearTimeout_def clearIfSet_def settle_def update_proxy_def forEach_def
  new_AudiostreamProxy_def newAudioData_def audio_read_def audio_stopProxyStream_def
  resetKillTimeout_def new_VideostreamProxy_def newVideoData_def video_read_def
  video_stopProxyStream_def stopLocalLiveStream_def scheduleLivestreamCacheTermination_def
  cacheTerminationCallback_def removeProxyStream_def stopStreams_def stopProxyStream_def
  stopAllProxyStreams_def getProxyStream_def startAndGetLocalLiveStream_def
  connectionTimeoutCallback_def livestreamStartListener_def getLocalLivestream_def
  onStationLivestreamStop_def onStationLivestreamStart_def onVideoData_def onAudioData_def
  onStreamErrorOrEnd_def runTimer_def isIFrame_def array_includes_def validValues_def
  SECONDS_UNTIL_TERMINATION_AFTER_LAST_USED_def CONNECTION_ESTABLISHED_TIMEOUT_def Let_def

lemma floor_numeral_div: "\<lfloor>numeral a / numeral b :: rat\<rfloor> = numeral a div numeral b"
  using floor_divide_of_int_eq [of "numeral a" "numeral b", where ?'a = rat] by simp

lemmas number_defs = round64_def scale_down.simps scale_up.simps pow2_def round_half_even_def
  num_of_time_def floor_numeral_div

text \<open>
  The numbers of the run at the threshold: 0.2, 81.6 seconds elapsed, the 20.4 seconds
  that remain of 102, and the product of 102 and 0.2, as binary64 values.
\<close>

lemma round64_examples:
  "round64 0.2 = Num (3602879701896397 / 18014398509481984)"
  "num_div (num_sub (num_of_time 81600) (num_of_time 0)) 1000 =
     Num (2871044762448691 / 35184372088832)"
  "num_sub (Num 102) (Num (2871044762448691 / 35184372088832)) =
     Num (717761190612173 / 35184372088832)"
  "num_mul (Num 102) (round64 0.2) = Num (5742089524897383 / 281474976710656)"
  "num_mul (Num 100) (round64 0.2) = Num 20"
  by (simp_all add: number_defs)

lemma drain_numeral:
  "drain (numeral n) (d # q) out = drain (pred_numeral n) q (out @ [d])"
  by (simp add: numeral_eq_Suc)

lemmas example_defs = drain_numeral key_frame_def delta_frame1_def delta_frame2_def accepting_def
  video_queues_def video_delivered_def

lemma one_consumer_eval:
  "proxyStreams one_consumer =
     [\<lparr>oid = 2, ps_id = 0,
       videostream = \<lparr>livestreamId = 0, v_cacheData = 1, v_killTimeout = Some 1,
         v_pushNewDataImmediately = False, v_destroyed = False, v_delivered = []\<rparr>,
       audiostream = new_AudiostreamProxy\<rparr>]"
  "cameraMaxLivestreamDuration one_consumer = Num 100"
  "livestreamStartedAt one_consumer = Some 0"
  "cacheEnabled one_consumer"
  "upstream one_consumer = [StartStationLivestream]"
  "stationStream one_consumer"
  "livestreamCount one_consumer = 1"
  "timers one_consumer = [(1, 15000, KillProxy 0)]"
  by (simp_all add: one_consumer_def model_defs)

section \<open>Termination policy\<close>

text \<open>
  C3, as the code has it: when the last attached consumer detaches, let \<open>remaining\<close>
  be the maximal session duration minus the seconds elapsed since the session started,
  and the threshold 0.2 times the maximal duration, all computed in binary64 arithmetic
  as the code does. If caching is enabled and \<open>remaining\<close> is greater than the
  threshold and greater than 20, the deferred stop is scheduled 45 seconds later and no
  stop is requested upstream; otherwise exactly one stop is requested upstream at once
  and no timer is added. (Without a start time the code takes the elapsed time as 0.)
\<close>

theorem last_detach_policy:
  fixes now :: int
  assumes "proxyStreams m = [p]" and "ps_id p = i"
  shows "let elapsed = num_div (num_sub (num_of_time now)
                         (num_of_time (case livestreamStartedAt m of
                                         Some t \<Rightarrow> t | None \<Rightarrow> now))) 1000;
             remaining = num_sub (cameraMaxLivestreamDuration m) elapsed;
             threshold = num_mul (cameraMaxLivestreamDuration m) (round64 0.2);
             m' = stopProxyStream i now m
         in proxyStreams m' = [] \<and>
            (if cacheEnabled m \<and> num_gt remaining threshold \<and> num_gt remaining (Num 20)
             then upstream m' = upstream m \<and>
                  (\<exists>h. terminationTimeout m' = Some h \<and>
                       (h, now + 45000, CacheTermination) \<in> set (timers m'))
             else upstream m' = upstream m @ [StopStationLivestream] \<and>
                  set (timers m') \<subseteq> set (timers m))"
  using assms
  by (simp add: stopProxyStream_def forEach_def stopStreams_def video_stopProxyStream_def
      update_proxy_def removeProxyStream_def Let_def scheduleLivestreamCacheTermination_def
      setTimeout_def stopLocalLiveStream_def SECONDS_UNTIL_TERMINATION_AFTER_LAST_USED_def
      clearIfSet_def clearTimeout_def split: option.splits)

text \<open>
  With a maximal duration of 100 seconds and caching enabled, a last detach after 50
  seconds defers the stop to 45 seconds later, and one after 85 seconds stops at once.
\<close>

theorem last_detach_policy_witness:
  "upstream (stopProxyStream 0 50000 one_consumer) = [StartStationLivestream] \<and>
   (\<exists>h. terminationTimeout (stopProxyStream 0 50000 one_consumer) = Some h \<and>
        (h, 95000, CacheTermination) \<in> set (timers (stopProxyStream 0 50000 one_consumer))) \<and>
   upstream (stopProxyStream 0 85000 one_consumer) =
     [StartStationLivestream, StopStationLivestream] \<and>
   set (timers (stopProxyStream 0 85000 one_consumer)) \<subseteq> {(1, 15000, KillProxy 0)}"
  using last_detach_policy [OF one_consumer_eval(1), of 0 50000]
    last_detach_policy [OF one_consumer_eval(1), of 0 85000]
  by (simp add: one_consumer_eval number_defs Let_def)

text \<open>
  C3 with exact arithmetic fails where the remaining time equals the threshold: with a
  maximal duration of 102 seconds and the last detach after 81.6 seconds, 20.4 seconds
  remain and 20.4 is the threshold, so nothing should be deferred; the quotient and the
  difference as rounded by the code exceed the rounded product, and the stop is deferred.
\<close>

theorem deferred_at_equal_threshold:
  "\<not> (102 - 81600 / 1000 > max (0.2 * 102) (20 :: rat)) \<and>
   cacheEnabled boundary_consumer \<and>
   cameraMaxLivestreamDuration boundary_consumer = Num 102 \<and>
   livestreamStartedAt boundary_consumer = Some 0 \<and>
   map ps_id (proxyStreams boundary_consumer) = [0] \<and>
   upstream (stopProxyStream 0 81600 boundary_consumer) = [StartStationLivestream] \<and>
   terminationTimeout (stopProxyStream 0 81600 boundary_consumer) = Some 2 \<and>
   timers (stopProxyStream 0 81600 boundary_consumer) = [(2, 126600, CacheTermination)]"
  by (simp add: boundary_consumer_def model_defs number_defs)

text \<open>
  C10: when the timer of the deferred stop fires, a stop is requested upstream exactly
  if no outlet pair is attached at that moment; with a pair attached nothing is
  requested. The attached set is left as it is.
\<close>

theorem cache_termination_only_when_unused:
  assumes "find (\<lambda>tm. fst tm = h \<and> fst (snd tm) \<le> now) (timers m) =
             Some (h, due, CacheTermination)"
  shows "upstream (step (now, TimerFires h) m) =
           (if proxyStreams m = [] then upstream m @ [StopStationLivestream] else upstream m) \<and>
         proxyStreams (step (now, TimerFires h) m) = proxyStreams m"
  using assms
  by (simp add: runTimer_def cacheTerminationCallback_def stopLocalLiveStream_def
      clearTimeout_def)

text \<open>
  The timer left by a last detach requests the stop when it fires; the same timer
  firing while the consumer of \<open>one_consumer\<close> is attached requests nothing.
\<close>

theorem cache_termination_only_when_unused_witness:
  "upstream (step (95000, TimerFires 2) (stopProxyStream 0 50000 one_consumer)) =
     [StartStationLivestream, StopStationLivestream] \<and>
   upstream (step (95000, TimerFires 7)
              (one_consumer\<lparr>timers := [(7, 95000, CacheTermination)]\<rparr>)) =
     [StartStationLivestream]"
proof -
  have a: "find (\<lambda>tm. fst tm = 2 \<and> fst (snd tm) \<le> 95000)
             (timers (stopProxyStream 0 50000 one_consumer)) = Some (2, 95000, CacheTermination)"
    by (simp add: one_consumer_def model_defs number_defs)
  have b: "find (\<lambda>tm. fst tm = 7 \<and> fst (snd tm) \<le> 95000)
             (timers (one_consumer\<lparr>timers := [(7, 95000, CacheTermination)]\<rparr>)) =
           Some (7, 95000, CacheTermination)"
    by simp
  have c: "proxyStreams (stopProxyStream 0 50000 one_consumer) = []"
    "upstream (stopProxyStream 0 50000 one_consumer) = [StartStationLivestream]"
    by (simp_all add: one_consumer_def model_defs number_defs)
  show ?thesis
    using cache_termination_only_when_unused [OF a] cache_termination_only_when_unused [OF b] c
    by (simp add: one_consumer_eval)
qed

section \<open>Starting the session\<close>





text \<open>
  C4: a single \<^verbatim>\<open>getLocalLivestream\<close> call without a session is rejected when its
  connection timer fires after 5 seconds, and the flag is cleared. With two calls, at 0
  and at 1000 milliseconds, and no start reported by the station, the second call cancels
  the connection timer of the first: at 5000 that timer is gone, the timer of the second
  call fires at 6000 and rejects the second promise only, and no timer is left. The first
  call stays pending although its 5 seconds have passed.
\<close>

theorem earlier_call_never_times_out:
  "(let m = exec [(0, GetLocalLivestream), (5000, TimerFires 0)] (new_manager True (Num 100))
    in promises m = [Rejected ''no started livestream found''] \<and> \<not> livestreamIsStarting m) \<and>
   (let m = exec [(0, GetLocalLivestream), (1000, GetLocalLivestream), (5000, TimerFires 0),
                  (6000, TimerFires 1)] (new_manager True (Num 100))
    in promises m = [Pending, Rejected ''no started livestream found''] \<and> timers m = [] \<and>
       \<not> stationStream m)"
  by (simp add: model_defs)

section \<open>The key-frame cache and the video outlets\<close>

text \<open>
  C1: the video outlet of the second consumer holds the very array that is the key-frame
  cache. When that outlet is read, the cache, which held the key frame, becomes empty;
  and when instead one more buffer arrives, the outlet's queue takes it twice, once
  through the cache and once as forwarded.
\<close>

theorem outlet_queue_is_the_cache:
  "map (\<lambda>p. v_cacheData (videostream p)) (proxyStreams second_consumer) =
     [1, iFrameCache second_consumer] \<and>
   arrays second_consumer (iFrameCache second_consumer) = [key_frame] \<and>
   (let m = step (300, VideoRead 4 1) second_consumer in arrays m (iFrameCache m) = []) \<and>
   (let m = step (300, VideoData delta_frame1 accepting) second_consumer
    in video_queues m ! 0 = [key_frame, delta_frame1] \<and>
       video_queues m ! 1 = [key_frame, delta_frame1, delta_frame1])"
  by (simp add: second_consumer_def one_consumer_def model_defs example_defs)

text \<open>
  C2: the second consumer reads the key frame, one more buffer arrives, and a third
  consumer attaches. A key frame and a later buffer have been received, yet the third
  outlet starts with an empty queue and the first buffer it delivers is the next live one.
  In the second run no key frame arrives at all; the consumer that attaches after the
  first buffer still gets that buffer from the cache.
\<close>

theorem late_consumer_gets_no_key_frame:
  "(let m = exec [(300, VideoRead 4 1), (400, VideoData delta_frame1 accepting),
                  (500, GetLocalLivestream)] second_consumer;
        m' = exec [(600, VideoRead 5 1), (700, VideoData delta_frame2 accepting)] m
    in map ps_id (proxyStreams m) = [0, 1, 2] \<and> video_queues m ! 2 = [] \<and>
       video_delivered m' ! 2 = [delta_frame2]) \<and>
   (let m = exec [(100, VideoData delta_frame1 accepting), (200, GetLocalLivestream),
                  (300, VideoRead 3 1)] one_consumer
    in video_delivered m ! 1 = [delta_frame1])"
  by (simp add: second_consumer_def one_consumer_def model_defs example_defs)

text \<open>
  C6: after the key frame, the attach of the second consumer and one more buffer, the
  cache holds that buffer twice. In a session without any key frame, the first buffer
  is in the cache once the consumer's outlet has queued it.
\<close>

theorem cache_holds_buffer_twice:
  "(let m = step (300, VideoData delta_frame1 accepting) second_consumer
    in arrays m (iFrameCache m) = [key_frame, delta_frame1, delta_frame1]) \<and>
   (let m = step (100, VideoData delta_frame1 accepting) one_consumer
    in arrays m (iFrameCache m) = [delta_frame1]) \<and>
   \<not> isIFrame delta_frame1"
  by (simp add: second_consumer_def one_consumer_def model_defs example_defs)

text \<open>
  The audio outlet, whose queue is its own array, is a queue in the strict sense: what it
  has delivered, followed by what it still holds, is what was produced for it, in order.
\<close>

lemma drain_fifo:
  "drain k q out = (q', out', b) \<Longrightarrow> out' @ q' = out @ q \<and> (b \<longrightarrow> q' = [])"
  by (induction k q out rule: drain.induct) auto

lemma audio_op_fifo:
  assumes "\<not> a_destroyed a" and "a_pushNewDataImmediately a \<longrightarrow> a_cacheData a = []"
  shows "\<not> a_destroyed (audio_op x a) \<and>
         (a_pushNewDataImmediately (audio_op x a) \<longrightarrow> a_cacheData (audio_op x a) = []) \<and>
         a_delivered (audio_op x a) @ a_cacheData (audio_op x a) =
           a_delivered a @ a_cacheData a @ produced [x]"
proof (cases x)
  case (Produce data)
  then show ?thesis using assms by (simp add: newAudioData_def Let_def)
next
  case (Consume k)
  obtain q' out' b where d: "drain k (a_cacheData a) (a_delivered a) = (q', out', b)"
    by (cases "drain k (a_cacheData a) (a_delivered a)")
  show ?thesis
    using assms drain_fifo [OF d] Consume d
    by (cases "a_pushNewDataImmediately a") (auto simp: audio_read_def Let_def)
qed

lemma produced_append: "produced (xs @ ys) = produced xs @ produced ys"
  by (induction xs rule: produced.induct) auto

lemma audio_outlet_fifo:
  assumes "\<not> a_destroyed a" and "a_pushNewDataImmediately a \<longrightarrow> a_cacheData a = []"
  shows "a_delivered (fold audio_op ops a) @ a_cacheData (fold audio_op ops a) =
           a_delivered a @ a_cacheData a @ produced ops"
  using assms
proof (induction ops arbitrary: a)
  case Nil
  then show ?case by simp
next
  case (Cons x ops)
  note s = audio_op_fifo [OF Cons.prems, of x]
  have "produced (x # ops) = produced [x] @ produced ops"
    using produced_append [of "[x]" ops] by simp
  then show ?case
    using Cons.IH [of "audio_op x a"] s by simp
qed

text \<open>
  C8: the video outlet of the second consumer was given the key frame at its creation
  and one further buffer by \<^verbatim>\<open>newVideoData\<close>; read by a consumer that accepts
  everything, it delivers that buffer twice.
\<close>

theorem video_outlet_delivers_twice:
  "(let m = exec [(300, VideoData delta_frame1 accepting), (400, VideoRead 4 5)] second_consumer
    in video_delivered m ! 1 = [key_frame, delta_frame1, delta_frame1])"
  by (simp add: second_consumer_def one_consumer_def model_defs example_defs)

section \<open>Identifiers of the attached pairs\<close>

text \<open>
  Every event except an attach leaves a subsequence of the attached pairs; an attach
  appends the pairs it creates. The first part goes through each \<open>forEach\<close> over the set.
\<close>

lemma subseq_distinct: "subseq xs ys \<Longrightarrow> distinct ys \<Longrightarrow> distinct xs"
  by (induction rule: list_emb.induct) (auto dest: list_emb_set)

lemma subseq_subset: "subseq xs ys \<Longrightarrow> set xs \<subseteq> set ys"
  by (auto dest: list_emb_set)

lemma shrinks_refl [simp]: "shrinks m m"
  by (simp add: shrinks_def)

lemma shrinks_trans: "shrinks a b \<Longrightarrow> shrinks b c \<Longrightarrow> shrinks a c"
  unfolding shrinks_def by (meson subseq_order.order_trans le_trans)

lemma shrinks_eq: "keys m' = keys m \<Longrightarrow> nextRef m \<le> nextRef m' \<Longrightarrow> shrinks m m'"
  by (simp add: shrinks_def)

lemma refs_ok_shrinks: "refs_ok m \<Longrightarrow> shrinks m m' \<Longrightarrow> refs_ok m'"
  unfolding refs_ok_def shrinks_def
  by (meson subseq_distinct subseq_map subseq_subset subsetD less_le_trans)

lemma find_oid: "find (\<lambda>p. oid p = r) ps = Some p \<Longrightarrow> p \<in> set ps \<and> oid p = r"
  by (auto simp: find_Some_iff)

lemma forEach_from_preserves:
  assumes "\<And>p m. P m \<Longrightarrow> p \<in> set (proxyStreams m) \<Longrightarrow> P (f p m)"
  shows "P m \<Longrightarrow> P (forEach_from f rs m)"
proof (induction rs arbitrary: m)
  case Nil
  then show ?case by simp
next
  case (Cons r rs)
  show ?case
  proof (cases "find (\<lambda>p. oid p = r) (proxyStreams m)")
    case None
    then show ?thesis using Cons by simp
  next
    case (Some p)
    then have "P (f p m)" using assms Cons.prems find_oid by blast
    then show ?thesis using Cons.IH Some by simp
  qed
qed

lemma forEach_preserves:
  assumes "\<And>p m. P m \<Longrightarrow> p \<in> set (proxyStreams m) \<Longrightarrow> P (f p m)"
  shows "P m \<Longrightarrow> P (forEach f m)"
  unfolding forEach_def using assms by (rule forEach_from_preserves)

lemma keys_clearIfSet [simp]: "keys (clearIfSet t m) = keys m"
  and nextRef_clearIfSet [simp]: "nextRef (clearIfSet t m) = nextRef m"
  by (simp_all add: keys_def clearIfSet_def clearTimeout_def split: option.splits)

lemma keys_settle [simp]: "keys (settle c v m) = keys m"
  and nextRef_settle [simp]: "nextRef (settle c v m) = nextRef m"
  by (simp_all add: keys_def settle_def)

lemma keys_stopLocalLiveStream [simp]: "keys (stopLocalLiveStream m) = keys m"
  and nextRef_stopLocalLiveStream [simp]: "nextRef (stopLocalLiveStream m) = nextRef m"
  by (simp_all add: keys_def stopLocalLiveStream_def)

lemma keys_schedule [simp]: "keys (scheduleLivestreamCacheTermination now m) = keys m"
  and nextRef_schedule [simp]: "nextRef (scheduleLivestreamCacheTermination now m) = nextRef m"
  by (simp_all add: keys_def scheduleLivestreamCacheTermination_def setTimeout_def
      clearIfSet_def clearTimeout_def split: option.splits)

lemma keys_initialize [simp]: "keys (initialize m) = keys m"
  and nextRef_initialize [simp]: "nextRef (initialize m) = Suc (nextRef m)"
  by (simp_all add: keys_def initialize_def new_array_def Let_def
      clearIfSet_def clearTimeout_def split: option.splits)

lemma keys_update_proxy:
  assumes "refs_ok m" and "q \<in> set (proxyStreams m)" and "oid p = oid q" and "ps_id p = ps_id q"
  shows "keys (update_proxy p m) = keys m"
proof -
  have "\<And>x. x \<in> set (proxyStreams m) \<Longrightarrow> oid x = oid p \<Longrightarrow> ps_id x = ps_id p"
  proof -
    fix x assume x: "x \<in> set (proxyStreams m)" "oid x = oid p"
    have "inj_on fst (set (keys m))" using assms(1) by (simp add: refs_ok_def distinct_map)
    moreover have "(oid x, ps_id x) \<in> set (keys m)" "(oid q, ps_id q) \<in> set (keys m)"
      using x(1) assms(2) by (auto simp: keys_def)
    moreover have "fst (oid x, ps_id x) = fst (oid q, ps_id q)"
      using x(2) assms(3) by simp
    ultimately have "(oid x, ps_id x) = (oid q, ps_id q)"
      by (meson inj_onD)
    then show "ps_id x = ps_id p" using assms(4) by simp
  qed
  then have "map (\<lambda>x. (oid (if oid x = oid p then p else x), ps_id (if oid x = oid p then p else x)))
          (proxyStreams m) = map (\<lambda>x. (oid x, ps_id x)) (proxyStreams m)"
    by (intro map_cong) auto
  then show ?thesis
    by (simp add: keys_def update_proxy_def comp_def)
qed

lemma nextRef_update_proxy [simp]: "nextRef (update_proxy p m) = nextRef m"
  by (simp add: update_proxy_def)

lemma stopStreams_keys:
  assumes "refs_ok m" and "p \<in> set (proxyStreams m)"
  shows "keys (stopStreams p m) = keys m" and "nextRef (stopStreams p m) = nextRef m"
proof -
  let ?m1 = "clearIfSet (v_killTimeout (videostream p)) m"
  have "refs_ok ?m1" "p \<in> set (proxyStreams ?m1)"
    using assms by (simp_all add: refs_ok_def clearIfSet_def clearTimeout_def split: option.splits add: keys_def)
  then show "keys (stopStreams p m) = keys m"
    by (simp add: stopStreams_def video_stopProxyStream_def keys_update_proxy [where q = p])
  show "nextRef (stopStreams p m) = nextRef m"
    by (simp add: stopStreams_def video_stopProxyStream_def)
qed

lemma proxyStreams_stopLocalLiveStream [simp]:
  "proxyStreams (stopLocalLiveStream m) = proxyStreams m"
  by (simp add: stopLocalLiveStream_def)

lemma proxyStreams_schedule [simp]:
  "proxyStreams (scheduleLivestreamCacheTermination now m) = proxyStreams m"
  by (simp add: scheduleLivestreamCacheTermination_def setTimeout_def
      clearIfSet_def clearTimeout_def split: option.splits)

lemma proxyStreams_removeProxyStream:
  "proxyStreams (removeProxyStream i now m) =
     (case rev (filter (\<lambda>p. ps_id p = i) (proxyStreams m)) of
        [] \<Rightarrow> proxyStreams m
      | p # _ \<Rightarrow> filter (\<lambda>q. oid q \<noteq> oid p) (proxyStreams m))"
  by (simp add: removeProxyStream_def Let_def split: list.splits)

lemma nextRef_removeProxyStream [simp]: "nextRef (removeProxyStream i now m) = nextRef m"
  by (simp add: removeProxyStream_def Let_def split: list.splits)

lemma removeProxyStream_shrinks: "shrinks m (removeProxyStream i now m)"
proof -
  have "subseq (keys (removeProxyStream i now m)) (keys m)"
    unfolding keys_def proxyStreams_removeProxyStream
    by (auto split: list.splits intro!: subseq_map)
  then show ?thesis by (simp add: shrinks_def)
qed

lemma below_step:
  "below m0 m \<Longrightarrow> shrinks m m' \<Longrightarrow> below m0 m'"
  unfolding below_def by (auto intro: refs_ok_shrinks shrinks_trans)

lemma stopStreams_shrinks:
  "refs_ok m \<Longrightarrow> p \<in> set (proxyStreams m) \<Longrightarrow> shrinks m (stopStreams p m)"
  by (simp add: shrinks_eq stopStreams_keys)

lemma stop_and_remove_below:
  assumes "below m0 m" and "p \<in> set (proxyStreams m)"
  shows "below m0 (removeProxyStream i now (stopStreams p m))"
proof -
  have "refs_ok m" using assms(1) by (simp add: below_def)
  then have "shrinks m (stopStreams p m)"
    using assms(2) by (rule stopStreams_shrinks)
  with assms(1) have "below m0 (stopStreams p m)"
    by (rule below_step)
  then show ?thesis
    using removeProxyStream_shrinks by (rule below_step)
qed

lemma stopProxyStream_below: "below m0 m \<Longrightarrow> below m0 (stopProxyStream i now m)"
  unfolding stopProxyStream_def
  by (rule forEach_preserves [where P = "below m0"]) (simp_all add: stop_and_remove_below)

lemma stopAllProxyStreams_below: "below m0 m \<Longrightarrow> below m0 (stopAllProxyStreams now m)"
  unfolding stopAllProxyStreams_def
  by (rule forEach_preserves [where P = "below m0"]) (simp_all add: stopProxyStream_below)

lemma below_refl: "refs_ok m \<Longrightarrow> below m m"
  by (simp add: below_def)

lemma onStationLivestreamStop_below:
  assumes "below m0 m" shows "below m0 (onStationLivestreamStop now m)"
proof -
  let ?m1 = "forEach (\<lambda>proxyStream m'. removeProxyStream (ps_id proxyStream) now
                                     (stopStreams proxyStream m')) m"
  have "below m0 ?m1"
    by (rule forEach_preserves [where P = "below m0"]) (simp_all add: stop_and_remove_below assms)
  moreover have "shrinks ?m1 (initialize ?m1)"
    by (simp add: shrinks_eq)
  ultimately show ?thesis
    unfolding onStationLivestreamStop_def by (rule below_step)
qed

lemma onStreamErrorOrEnd_below:
  assumes "below m0 m" shows "below m0 (onStreamErrorOrEnd now m)"
proof -
  have "below m0 (stopAllProxyStreams now m)"
    using assms by (rule stopAllProxyStreams_below)
  moreover have "shrinks (stopAllProxyStreams now m)
                   (initialize (stopLocalLiveStream (stopAllProxyStreams now m)))"
    by (simp add: shrinks_eq)
  ultimately show ?thesis
    unfolding onStreamErrorOrEnd_def by (rule below_step)
qed

lemma resetKillTimeout_keys [simp]:
  "keys (snd (resetKillTimeout now v m)) = keys m"
  "nextRef (snd (resetKillTimeout now v m)) = nextRef m"
  by (simp_all add: resetKillTimeout_def setTimeout_def keys_def clearIfSet_def clearTimeout_def
      split: option.splits)

lemma newVideoData_keys [simp]:
  "keys (snd (newVideoData data r now v m)) = keys m"
  "nextRef (snd (newVideoData data r now v m)) = nextRef m"
  by (simp_all add: newVideoData_def Let_def split: push_result.splits)
    (simp_all add: keys_def)

lemma video_read_keys [simp]:
  "keys (snd (video_read k now v m)) = keys m"
  "nextRef (snd (video_read k now v m)) = nextRef m"
proof -
  obtain v1 m1 where r: "resetKillTimeout now v m = (v1, m1)" by (cases "resetKillTimeout now v m")
  have "keys m1 = keys m" "nextRef m1 = nextRef m"
    using resetKillTimeout_keys [of now v m] r by simp_all
  then show "keys (snd (video_read k now v m)) = keys m"
    "nextRef (snd (video_read k now v m)) = nextRef m"
    by (simp_all add: video_read_def r Let_def split: prod.splits) (simp_all add: keys_def)
qed

lemma refs_ok_keys: "keys m' = keys m \<Longrightarrow> nextRef m' = nextRef m \<Longrightarrow> refs_ok m' = refs_ok m"
  by (simp add: refs_ok_def)

lemma set_proxyStreams_keys:
  assumes "keys m' = keys m" and "p \<in> set (proxyStreams m)"
  shows "\<exists>q \<in> set (proxyStreams m'). oid q = oid p \<and> ps_id q = ps_id p"
proof -
  have "(oid p, ps_id p) \<in> set (keys m)"
    using assms(2) by (auto simp: keys_def)
  then have "(oid p, ps_id p) \<in> set (keys m')"
    by (simp only: assms(1))
  then show ?thesis
    unfolding keys_def by auto
qed

lemma update_video_below:
  assumes "below m0 m" and "p \<in> set (proxyStreams m)"
    and "keys m1 = keys m" and "nextRef m1 = nextRef m"
  shows "below m0 (update_proxy (p\<lparr>videostream := v\<rparr>) m1)"
proof -
  have ok: "refs_ok m1"
    using assms(1) refs_ok_keys [OF assms(3,4)] by (simp add: below_def)
  obtain q where q: "q \<in> set (proxyStreams m1)" "oid q = oid p" "ps_id q = ps_id p"
    using set_proxyStreams_keys [OF assms(3,2)] by auto
  have "keys (update_proxy (p\<lparr>videostream := v\<rparr>) m1) = keys m1"
    using ok q by (intro keys_update_proxy [where q = q]) simp_all
  then have "shrinks m (update_proxy (p\<lparr>videostream := v\<rparr>) m1)"
    using assms(3,4) by (simp add: shrinks_eq)
  with assms(1) show ?thesis by (rule below_step)
qed

lemma update_audio_below:
  assumes "below m0 m" and "p \<in> set (proxyStreams m)"
  shows "below m0 (update_proxy (p\<lparr>audiostream := a\<rparr>) m)"
proof -
  have "keys (update_proxy (p\<lparr>audiostream := a\<rparr>) m) = keys m"
    using assms by (intro keys_update_proxy [where q = p]) (simp_all add: below_def)
  then have "shrinks m (update_proxy (p\<lparr>audiostream := a\<rparr>) m)"
    by (simp add: shrinks_eq)
  with assms(1) show ?thesis by (rule below_step)
qed

lemma onVideoData_below:
  assumes "below m0 m" shows "below m0 (onVideoData data pr now m)"
proof -
  let ?m1 = "if isIFrame data then
                  (case new_array [data] m of (r, m') \<Rightarrow> m'\<lparr>iFrameCache := r\<rparr>)
                else if length (arrays m (iFrameCache m)) > 0 then
                  m\<lparr>arrays := (arrays m)(iFrameCache m := arrays m (iFrameCache m) @ [data])\<rparr>
                else m"
  have "keys ?m1 = keys m" "nextRef m \<le> nextRef ?m1"
    by (simp_all add: keys_def new_array_def)
  then have "shrinks m ?m1"
    by (rule shrinks_eq)
  with assms have m1: "below m0 ?m1"
    by (rule below_step)
  have "below m0 (forEach (\<lambda>proxyStream m'.
                    case newVideoData data (pr (oid proxyStream)) now (videostream proxyStream) m' of
                      (v, m'') \<Rightarrow> update_proxy (proxyStream\<lparr>videostream := v\<rparr>) m'') ?m1)"
  proof (rule forEach_preserves [where P = "below m0"])
    fix p m' assume a: "below m0 m'" "p \<in> set (proxyStreams m')"
    obtain v m'' where r: "newVideoData data (pr (oid p)) now (videostream p) m' = (v, m'')"
      by (cases "newVideoData data (pr (oid p)) now (videostream p) m'")
    have "keys m'' = keys m'" "nextRef m'' = nextRef m'"
      using newVideoData_keys [of data "pr (oid p)" now "videostream p" m'] r by simp_all
    then show "below m0 (case newVideoData data (pr (oid p)) now (videostream p) m' of
                      (v, m'') \<Rightarrow> update_proxy (p\<lparr>videostream := v\<rparr>) m'')"
      using a r by (simp add: update_video_below)
  qed (rule m1)
  then show ?thesis by (simp add: onVideoData_def Let_def)
qed

lemma onAudioData_below:
  assumes "below m0 m" shows "below m0 (onAudioData data m)"
  unfolding onAudioData_def
  by (rule forEach_preserves [where P = "below m0"]) (simp_all add: update_audio_below assms)

lemma ids_keys: "ids m = map snd (keys m)"
  by (simp add: ids_def keys_def comp_def)

lemma video_read_step_below:
  assumes "refs_ok m" shows "below m (step (now, VideoRead r k) m)"
proof (cases "find (\<lambda>p. oid p = r) (proxyStreams m)")
  case None
  then show ?thesis using assms by (simp add: below_refl)
next
  case (Some p)
  then have p: "p \<in> set (proxyStreams m)" using find_oid by blast
  obtain v m1 where r: "video_read k now (videostream p) m = (v, m1)"
    by (cases "video_read k now (videostream p) m")
  have "keys m1 = keys m" "nextRef m1 = nextRef m"
    using video_read_keys [of k now "videostream p" m] r by simp_all
  then have "below m (update_proxy (p\<lparr>videostream := v\<rparr>) m1)"
    using assms p by (intro update_video_below) (simp_all add: below_refl)
  then show ?thesis
    using Some r assms by (simp add: below_refl)
qed

lemma audio_read_step_below:
  assumes "refs_ok m" shows "below m (step (now, AudioRead r k) m)"
proof (cases "find (\<lambda>p. oid p = r) (proxyStreams m)")
  case None
  then show ?thesis using assms by (simp add: below_refl)
next
  case (Some p)
  then have p: "p \<in> set (proxyStreams m)" using find_oid by blast
  then show ?thesis
    using Some assms by (simp add: below_refl update_audio_below)
qed

lemma keys_clearTimeout [simp]: "keys (clearTimeout h m) = keys m"
  and nextRef_clearTimeout [simp]: "nextRef (clearTimeout h m) = nextRef m"
  by (simp_all add: keys_def clearTimeout_def)

lemma timer_step_below:
  assumes "refs_ok m" shows "below m (step (now, TimerFires h) m)"
proof (cases "find (\<lambda>tm. fst tm = h \<and> fst (snd tm) \<le> now) (timers m)")
  case None
  then show ?thesis using assms by (simp add: below_refl)
next
  case (Some tm)
  have b: "below m (clearTimeout h m)"
    using assms by (simp add: below_def refs_ok_def shrinks_eq)
  have "below m (runTimer (snd (snd tm)) now (clearTimeout h m))"
  proof (cases "snd (snd tm)")
    case (KillProxy i)
    then show ?thesis using b by (simp add: runTimer_def stopProxyStream_below)
  next
    case (ConnectionTimedOut c)
    have "shrinks (clearTimeout h m) (connectionTimeoutCallback c (clearTimeout h m))"
      by (intro shrinks_eq) (simp_all add: connectionTimeoutCallback_def settle_def keys_def)
    with b show ?thesis
      using ConnectionTimedOut by (simp add: runTimer_def below_step)
  next
    case CacheTermination
    have "shrinks (clearTimeout h m) (cacheTerminationCallback (clearTimeout h m))"
      by (intro shrinks_eq) (simp_all add: cacheTerminationCallback_def)
    with b show ?thesis
      using CacheTermination by (simp add: runTimer_def below_step)
  qed
  then show ?thesis using Some by simp
qed

lemma getProxyStream_session:
  assumes "stationStream m"
  shows "fst (getProxyStream now m) \<noteq> None"
    and "keys (snd (getProxyStream now m)) = keys m @ [(nextRef m, livestreamCount m)]"
    and "nextRef (snd (getProxyStream now m)) = Suc (nextRef m)"
    and "livestreamCount (snd (getProxyStream now m)) = nextCount (livestreamCount m)"
    and "stationStream (snd (getProxyStream now m))"
  using assms
  by (simp_all add: getProxyStream_def Let_def new_VideostreamProxy_def resetKillTimeout_def
      setTimeout_def clearIfSet_def keys_def nextCount_def split: prod.splits)

lemma getProxyStream_no_session:
  assumes "\<not> stationStream m"
  shows "getProxyStream now m = (None, m)"
  using assms by (simp add: getProxyStream_def)

lemma refs_ok_append:
  assumes "refs_ok m" and "keys m' = keys m @ [(nextRef m, c)]" and "nextRef m' = Suc (nextRef m)"
  shows "refs_ok m'"
  using assms by (auto simp: refs_ok_def)

lemma keys_startAndGet [simp]:
  "keys (startAndGetLocalLiveStream c now m) = keys m"
  "nextRef (startAndGetLocalLiveStream c now m) = nextRef m"
  by (simp_all add: startAndGetLocalLiveStream_def Let_def setTimeout_def keys_def
      clearIfSet_def clearTimeout_def split: option.splits)

lemma getLocalLivestream_keys:
  "keys (getLocalLivestream now m) =
     keys m @ (if stationStream m then [(nextRef m, livestreamCount m)] else [])"
  "nextRef (getLocalLivestream now m) = (if stationStream m then Suc (nextRef m) else nextRef m)"
proof -
  let ?m1 = "clearIfSet (terminationTimeout (m\<lparr>promises := promises m @ [Pending]\<rparr>))
               (m\<lparr>promises := promises m @ [Pending]\<rparr>)"
  have m1: "keys ?m1 = keys m" "nextRef ?m1 = nextRef m" "stationStream ?m1 = stationStream m"
    "livestreamCount ?m1 = livestreamCount m"
    by (simp_all add: keys_def clearIfSet_def clearTimeout_def split: option.splits)
  have "keys (getLocalLivestream now m) =
          keys m @ (if stationStream m then [(nextRef m, livestreamCount m)] else []) \<and>
        nextRef (getLocalLivestream now m) = (if stationStream m then Suc (nextRef m) else nextRef m)"
  proof (cases "stationStream m")
    case True
    then have s: "stationStream ?m1" using m1 by simp
    obtain p m2 where g: "getProxyStream now ?m1 = (Some p, m2)"
      using getProxyStream_session(1) [OF s, of now]
      by (cases "getProxyStream now ?m1") auto
    have m2: "keys m2 = keys m @ [(nextRef m, livestreamCount m)]" "nextRef m2 = Suc (nextRef m)"
      using getProxyStream_session(2,3) [OF s, of now] g m1 by simp_all
    have "getLocalLivestream now m = settle (length (promises m)) (Resolved (oid p)) m2"
      using g by (simp add: getLocalLivestream_def Let_def)
    then show ?thesis
      using m2 True by simp
  next
    case False
    then have "getProxyStream now ?m1 = (None, ?m1)"
      using m1 by (intro getProxyStream_no_session) simp
    then have "getLocalLivestream now m = startAndGetLocalLiveStream (length (promises m)) now ?m1"
      by (simp add: getLocalLivestream_def Let_def)
    then show ?thesis
      using False m1 by simp
  qed
  then show "keys (getLocalLivestream now m) =
     keys m @ (if stationStream m then [(nextRef m, livestreamCount m)] else [])"
    "nextRef (getLocalLivestream now m) = (if stationStream m then Suc (nextRef m) else nextRef m)"
    by simp_all
qed

lemma livestreamStartListener_session:
  assumes "stationStream m"
  shows "keys (livestreamStartListener now c m) = keys m @ [(nextRef m, livestreamCount m)]"
    and "nextRef (livestreamStartListener now c m) = Suc (nextRef m)"
    and "livestreamCount (livestreamStartListener now c m) = nextCount (livestreamCount m)"
    and "stationStream (livestreamStartListener now c m)"
proof -
  let ?m1 = "clearIfSet (connectionTimeout m) m"
  have m1: "keys ?m1 = keys m" "nextRef ?m1 = nextRef m" "stationStream ?m1"
    "livestreamCount ?m1 = livestreamCount m"
    using assms by (simp_all add: keys_def clearIfSet_def clearTimeout_def split: option.splits)
  obtain p m2 where g: "getProxyStream now ?m1 = (Some p, m2)"
    using getProxyStream_session(1) [OF m1(3), of now]
    by (cases "getProxyStream now ?m1") auto
  have m2: "keys m2 = keys m @ [(nextRef m, livestreamCount m)]" "nextRef m2 = Suc (nextRef m)"
    "livestreamCount m2 = nextCount (livestreamCount m)" "stationStream m2"
    using getProxyStream_session(2-5) [OF m1(3), of now] g m1 by simp_all
  have eq: "livestreamStartListener now c m =
        settle c (Resolved (oid p)) (m2\<lparr>livestreamIsStarting := False\<rparr>)"
    by (simp add: livestreamStartListener_def g)
  show "keys (livestreamStartListener now c m) = keys m @ [(nextRef m, livestreamCount m)]"
    using m2 by (simp add: eq) (simp add: keys_def)
  show "nextRef (livestreamStartListener now c m) = Suc (nextRef m)"
    using m2 by (simp add: eq)
  show "livestreamCount (livestreamStartListener now c m) = nextCount (livestreamCount m)"
    using m2 by (simp add: eq settle_def)
  show "stationStream (livestreamStartListener now c m)"
    using m2 by (simp add: eq settle_def)
qed

subsection \<open>The counter\<close>

lemma length_issue [simp]: "length (issue n c) = n"
  by (induction n arbitrary: c) simp_all

lemma issue_add: "issue (k + j) c = issue k c @ issue j ((nextCount ^^ k) c)"
  by (induction k arbitrary: c) (simp_all add: funpow_swap1)

lemma issue_upto:
  "c \<le> 1024 \<Longrightarrow> issue n c = map (\<lambda>j. (c + j) mod 1025) [0..<n]"
proof (induction n arbitrary: c)
  case 0
  then show ?case by simp
next
  case (Suc n)
  have "c = 1024 \<or> c < 1024" using Suc.prems by arith
  then have n: "nextCount c \<le> 1024" "nextCount c = Suc c mod 1025"
    by (auto simp: nextCount_def)
  have "map (\<lambda>j. (c + j) mod 1025) [0..<Suc n] =
        c mod 1025 # map (\<lambda>j. (c + Suc j) mod 1025) [0..<n]"
    by (simp only: upt_conv_Cons [of 0] map_Suc_upt [symmetric] list.map) simp
  also have "map (\<lambda>j. (c + Suc j) mod 1025) [0..<n] = map (\<lambda>j. (nextCount c + j) mod 1025) [0..<n]"
    by (intro map_cong refl) (simp add: n(2) mod_add_left_eq mod_Suc_eq)
  finally show ?case
    using Suc.IH [OF n(1)] Suc.prems by simp
qed

lemma mod_window:
  fixes x y c :: nat
  assumes "x < n" and "y < n" and "(c + x) mod n = (c + y) mod n"
  shows "x = y"
proof -
  have *: "a = b" if "a \<le> b" "b < n" "(c + a) mod n = (c + b) mod n" for a b :: nat
  proof -
    have "c + a \<le> c + b" using that(1) by simp
    then have "n dvd (c + b) - (c + a)"
      using that(3) mod_eq_dvd_iff_nat [of "c + a" "c + b" n] by metis
    then have "n dvd b - a" by simp
    moreover have "b - a < n" using that(2) by simp
    ultimately have "b - a = 0" by (meson dvd_imp_le not_less zero_less_iff_neq_zero)
    then show ?thesis using that(1) by simp
  qed
  show ?thesis
  proof (cases "x \<le> y")
    case True
    then show ?thesis using * [of x y] assms by simp
  next
    case False
    then show ?thesis using * [of y x] assms by simp
  qed
qed

lemma distinct_issue_small:
  assumes "c \<le> 1024" and "n \<le> 1025"
  shows "distinct (issue n c)"
proof -
  have "inj_on (\<lambda>j. (c + j) mod 1025) {0..<n}"
  proof (rule inj_onI)
    fix x y assume a: "x \<in> {0..<n}" "y \<in> {0..<n}" "(c + x) mod 1025 = (c + y) mod 1025"
    then have "x < 1025" "y < 1025" using assms(2) by simp_all
    then show "x = y" using a(3) by (rule mod_window)
  qed
  then show ?thesis
    using assms(1) by (simp add: issue_upto distinct_map)
qed

lemma issue_bounded: "c \<le> 1024 \<Longrightarrow> i \<in> set (issue n c) \<Longrightarrow> i \<le> 1024"
  by (auto simp: issue_upto intro: less_imp_le)

lemma distinct_issue:
  assumes "n \<le> 1025"
  shows "distinct (issue n c)"
proof (cases "c \<le> 1024")
  case True
  then show ?thesis using assms by (rule distinct_issue_small)
next
  case False
  show ?thesis
  proof (cases n)
    case 0
    then show ?thesis by simp
  next
    case (Suc k)
    have "nextCount c = 0" using False by (simp add: nextCount_def)
    moreover have "distinct (issue k 0)" using assms Suc by (intro distinct_issue_small) simp_all
    moreover have "c \<notin> set (issue k 0)" using issue_bounded [of 0 c k] False by auto
    ultimately show ?thesis using Suc by simp
  qed
qed

subsection \<open>The counter is changed by attaches only\<close>

lemma count_clearIfSet [simp]: "livestreamCount (clearIfSet t m) = livestreamCount m"
  by (simp add: clearIfSet_def clearTimeout_def split: option.splits)

lemma count_removeProxyStream [simp]:
  "livestreamCount (removeProxyStream i now m) = livestreamCount m"
  by (simp add: removeProxyStream_def Let_def scheduleLivestreamCacheTermination_def
      setTimeout_def stopLocalLiveStream_def split: list.splits)

lemma count_stopStreams [simp]: "livestreamCount (stopStreams p m) = livestreamCount m"
  by (simp add: stopStreams_def video_stopProxyStream_def update_proxy_def)

lemma count_stopProxyStream [simp]:
  "livestreamCount (stopProxyStream i now m) = livestreamCount m"
  unfolding stopProxyStream_def
  by (rule forEach_preserves [where P = "\<lambda>m'. livestreamCount m' = livestreamCount m"]) simp_all

lemma count_stopAllProxyStreams [simp]:
  "livestreamCount (stopAllProxyStreams now m) = livestreamCount m"
  unfolding stopAllProxyStreams_def
  by (rule forEach_preserves [where P = "\<lambda>m'. livestreamCount m' = livestreamCount m"]) simp_all

lemma count_initialize [simp]: "livestreamCount (initialize m) = livestreamCount m"
  by (simp add: initialize_def new_array_def Let_def)

lemma count_onStationLivestreamStop [simp]:
  "livestreamCount (onStationLivestreamStop now m) = livestreamCount m"
proof -
  have "livestreamCount (forEach (\<lambda>proxyStream m'. removeProxyStream (ps_id proxyStream) now
          (stopStreams proxyStream m')) m) = livestreamCount m"
    by (rule forEach_preserves [where P = "\<lambda>m'. livestreamCount m' = livestreamCount m"])
      simp_all
  then show ?thesis by (simp add: onStationLivestreamStop_def)
qed

lemma count_onStreamErrorOrEnd [simp]:
  "livestreamCount (onStreamErrorOrEnd now m) = livestreamCount m"
  by (simp add: onStreamErrorOrEnd_def stopLocalLiveStream_def)

lemma count_newVideoData [simp]:
  "livestreamCount (snd (newVideoData data r now v m)) = livestreamCount m"
  by (simp add: newVideoData_def Let_def resetKillTimeout_def setTimeout_def
      split: push_result.splits prod.splits)

lemma count_video_read [simp]:
  "livestreamCount (snd (video_read k now v m)) = livestreamCount m"
  by (simp add: video_read_def Let_def resetKillTimeout_def setTimeout_def split: prod.splits)

lemma count_update_proxy [simp]: "livestreamCount (update_proxy p m) = livestreamCount m"
  by (simp add: update_proxy_def)

lemma count_onVideoData [simp]:
  "livestreamCount (onVideoData data pr now m) = livestreamCount m"
proof -
  let ?m1 = "if isIFrame data then
                  (case new_array [data] m of (r, m') \<Rightarrow> m'\<lparr>iFrameCache := r\<rparr>)
                else if length (arrays m (iFrameCache m)) > 0 then
                  m\<lparr>arrays := (arrays m)(iFrameCache m := arrays m (iFrameCache m) @ [data])\<rparr>
                else m"
  have m1: "livestreamCount ?m1 = livestreamCount m" by (simp add: new_array_def)
  have "livestreamCount (forEach (\<lambda>proxyStream m'.
                    case newVideoData data (pr (oid proxyStream)) now (videostream proxyStream) m' of
                      (v, m'') \<Rightarrow> update_proxy (proxyStream\<lparr>videostream := v\<rparr>) m'') ?m1) =
        livestreamCount m"
  proof (rule forEach_preserves [where P = "\<lambda>m'. livestreamCount m' = livestreamCount m"])
    fix p :: ProxyStream and m' :: manager
    assume a: "livestreamCount m' = livestreamCount m"
    obtain v m'' where r: "newVideoData data (pr (oid p)) now (videostream p) m' = (v, m'')"
      by (cases "newVideoData data (pr (oid p)) now (videostream p) m'")
    have "livestreamCount m'' = livestreamCount m'"
      using count_newVideoData [of data "pr (oid p)" now "videostream p" m'] r by simp
    then show "livestreamCount (case newVideoData data (pr (oid p)) now (videostream p) m' of
                      (v, m'') \<Rightarrow> update_proxy (p\<lparr>videostream := v\<rparr>) m'') = livestreamCount m"
      using a r by simp
  qed (rule m1)
  then show ?thesis by (simp add: onVideoData_def Let_def)
qed

lemma count_onAudioData [simp]: "livestreamCount (onAudioData data m) = livestreamCount m"
  unfolding onAudioData_def
  by (rule forEach_preserves [where P = "\<lambda>m'. livestreamCount m' = livestreamCount m"]) simp_all

lemma count_runTimer [simp]: "livestreamCount (runTimer cb now m) = livestreamCount m"
  by (cases cb)
    (simp_all add: runTimer_def connectionTimeoutCallback_def settle_def
      cacheTerminationCallback_def stopLocalLiveStream_def)

lemma count_getLocalLivestream:
  "livestreamCount (getLocalLivestream now m) =
     (if stationStream m then nextCount (livestreamCount m) else livestreamCount m)"
proof -
  let ?m1 = "clearIfSet (terminationTimeout (m\<lparr>promises := promises m @ [Pending]\<rparr>))
               (m\<lparr>promises := promises m @ [Pending]\<rparr>)"
  have m1: "stationStream ?m1 = stationStream m" "livestreamCount ?m1 = livestreamCount m"
    by (simp_all add: clearIfSet_def clearTimeout_def split: option.splits)
  show ?thesis
  proof (cases "stationStream m")
    case True
    then have s: "stationStream ?m1" using m1 by simp
    obtain p m2 where g: "getProxyStream now ?m1 = (Some p, m2)"
      using getProxyStream_session(1) [OF s, of now]
      by (cases "getProxyStream now ?m1") auto
    have "livestreamCount m2 = nextCount (livestreamCount m)"
      using getProxyStream_session(4) [OF s, of now] g m1 by simp
    moreover have "getLocalLivestream now m = settle (length (promises m)) (Resolved (oid p)) m2"
      using g by (simp add: getLocalLivestream_def Let_def)
    ultimately show ?thesis using True by (simp add: settle_def)
  next
    case False
    then have "getProxyStream now ?m1 = (None, ?m1)"
      using m1 by (intro getProxyStream_no_session) simp
    then have "getLocalLivestream now m = startAndGetLocalLiveStream (length (promises m)) now ?m1"
      by (simp add: getLocalLivestream_def Let_def)
    then show ?thesis
      using False m1
      by (simp add: startAndGetLocalLiveStream_def Let_def setTimeout_def split: prod.splits)
  qed
qed

subsection \<open>What one event does to the attached pairs\<close>

lemma listeners_fold_keys:
  assumes "stationStream m" and "refs_ok m"
  shows "\<exists>nk. keys (fold (livestreamStartListener now) cs m) = keys m @ nk \<and>
              map snd nk = issue (length cs) (livestreamCount m) \<and>
              (\<forall>k \<in> set nk. nextRef m \<le> fst k) \<and>
              refs_ok (fold (livestreamStartListener now) cs m) \<and>
              nextRef m \<le> nextRef (fold (livestreamStartListener now) cs m) \<and>
              livestreamCount (fold (livestreamStartListener now) cs m) =
                (nextCount ^^ length cs) (livestreamCount m)"
  using assms
proof (induction cs arbitrary: m)
  case Nil
  then show ?case by simp
next
  case (Cons c cs)
  let ?m1 = "livestreamStartListener now c m"
  note l = livestreamStartListener_session [OF Cons.prems(1), of now c]
  have ok: "refs_ok ?m1"
    using Cons.prems(2) l(1,2) by (rule refs_ok_append)
  obtain nk where nk: "keys (fold (livestreamStartListener now) cs ?m1) = keys ?m1 @ nk"
    "map snd nk = issue (length cs) (livestreamCount ?m1)"
    "\<forall>k \<in> set nk. nextRef ?m1 \<le> fst k"
    "refs_ok (fold (livestreamStartListener now) cs ?m1)"
    "nextRef ?m1 \<le> nextRef (fold (livestreamStartListener now) cs ?m1)"
    "livestreamCount (fold (livestreamStartListener now) cs ?m1) =
       (nextCount ^^ length cs) (livestreamCount ?m1)"
    using Cons.IH [OF l(4) ok] by blast
  let ?nk = "(nextRef m, livestreamCount m) # nk"
  have "keys (fold (livestreamStartListener now) (c # cs) m) = keys m @ ?nk"
    using nk(1) l(1) by simp
  moreover have "map snd ?nk = issue (length (c # cs)) (livestreamCount m)"
    using nk(2) l(3) by simp
  moreover have "\<forall>k \<in> set ?nk. nextRef m \<le> fst k"
    using nk(3) l(2) by auto
  moreover have "refs_ok (fold (livestreamStartListener now) (c # cs) m)"
    using nk(4) by simp
  moreover have "nextRef m \<le> nextRef (fold (livestreamStartListener now) (c # cs) m)"
    using nk(5) l(2) by simp
  moreover have "livestreamCount (fold (livestreamStartListener now) (c # cs) m) =
                (nextCount ^^ length (c # cs)) (livestreamCount m)"
    using nk(6) l(3) by (simp add: funpow_swap1)
  ultimately show ?case by blast
qed

lemma below_shape:
  assumes "below m m'" and "issued e m = []" and "livestreamCount m' = livestreamCount m"
  shows "step_shape e m m'"
proof -
  have "keys m' = keys m' @ [] \<and> subseq (keys m') (keys m) \<and> map snd [] = issued e m \<and>
        (\<forall>k \<in> set ([] :: (ref \<times> nat) list). nextRef m \<le> fst k)"
    using assms(1,2) by (simp add: below_def shrinks_def)
  then have "\<exists>ks nk. keys m' = ks @ nk \<and> subseq ks (keys m) \<and> map snd nk = issued e m \<and>
              (\<forall>k \<in> set nk. nextRef m \<le> fst k)"
    by blast
  then show ?thesis
    using assms by (simp add: step_shape_def below_def shrinks_def)
qed

lemma onStationLivestreamStart_shape:
  assumes "refs_ok m"
  shows "step_shape (now, StationLivestreamStart True) m (onStationLivestreamStart now m)"
proof -
  let ?m1 = "(initialize m)\<lparr>livestreamStartedAt := Some now, stationStream := True\<rparr>"
  let ?m2 = "?m1\<lparr>listeners := []\<rparr>"
  let ?m3 = "fold (livestreamStartListener now) (listeners m) ?m2"
  have k: "keys ?m2 = keys m" "nextRef ?m2 = Suc (nextRef m)"
    using keys_initialize [of m] nextRef_initialize [of m] by (simp_all add: keys_def)
  have ok: "refs_ok ?m2"
    using assms k by (auto simp: refs_ok_def)
  have f: "listeners ?m1 = listeners m" "livestreamCount ?m2 = livestreamCount m"
    by (simp_all add: initialize_def new_array_def Let_def clearIfSet_def clearTimeout_def
        split: option.splits)
  have st: "stationStream ?m2" by simp
  obtain nk where nk: "keys ?m3 = keys ?m2 @ nk"
    "map snd nk = issue (length (listeners m)) (livestreamCount ?m2)"
    "\<forall>k \<in> set nk. nextRef ?m2 \<le> fst k" "refs_ok ?m3" "nextRef ?m2 \<le> nextRef ?m3"
    "livestreamCount ?m3 = (nextCount ^^ length (listeners m)) (livestreamCount ?m2)"
    using listeners_fold_keys [where m = ?m2 and now = now and cs = "listeners m", OF st ok]
    by blast
  have e: "onStationLivestreamStart now m = ?m3"
    using f(1) by (simp add: onStationLivestreamStart_def Let_def)
  have "keys ?m3 = keys m @ nk \<and> subseq (keys m) (keys m) \<and>
        map snd nk = issued (now, StationLivestreamStart True) m \<and>
        (\<forall>k \<in> set nk. nextRef m \<le> fst k)"
    using nk(1,2,3) k f(2) by auto
  then have "\<exists>ks nk. keys ?m3 = ks @ nk \<and> subseq ks (keys m) \<and>
        map snd nk = issued (now, StationLivestreamStart True) m \<and>
        (\<forall>k \<in> set nk. nextRef m \<le> fst k)"
    by blast
  then show ?thesis
    using nk(4,5,6) k(2) f(2) unfolding e step_shape_def by simp
qed

lemma getLocalLivestream_shape:
  assumes "refs_ok m"
  shows "step_shape (now, GetLocalLivestream) m (getLocalLivestream now m)"
proof -
  let ?m' = "getLocalLivestream now m"
  let ?nk = "if stationStream m then [(nextRef m, livestreamCount m)] else []"
  note g = getLocalLivestream_keys [where now = now and m = m]
  have "keys ?m' = keys m @ ?nk \<and> subseq (keys m) (keys m) \<and>
        map snd ?nk = issued (now, GetLocalLivestream) m \<and>
        (\<forall>k \<in> set ?nk. nextRef m \<le> fst k)"
    using g(1) by simp
  then have "\<exists>ks nk. keys ?m' = ks @ nk \<and> subseq ks (keys m) \<and>
        map snd nk = issued (now, GetLocalLivestream) m \<and> (\<forall>k \<in> set nk. nextRef m \<le> fst k)"
    by blast
  moreover have "refs_ok ?m'"
    using assms g by (auto simp: refs_ok_def less_Suc_eq)
  moreover have "nextRef m \<le> nextRef ?m'"
    using g(2) by simp
  moreover have "livestreamCount ?m' =
      (nextCount ^^ length (issued (now, GetLocalLivestream) m)) (livestreamCount m)"
    by (simp add: count_getLocalLivestream)
  ultimately show ?thesis
    unfolding step_shape_def by blast
qed

lemma step_shape_step:
  assumes "refs_ok m"
  shows "step_shape e m (step e m)"
proof -
  obtain now ev where e: "e = (now, ev)" by (cases e)
  have refl: "below m m" using assms by (rule below_refl)
  show ?thesis
  proof (cases ev)
    case GetLocalLivestream
    then show ?thesis using getLocalLivestream_shape [OF assms, of now] e by simp
  next
    case (StopProxyStream i)
    then show ?thesis
      using stopProxyStream_below [OF refl, of i now] e by (simp add: below_shape)
  next
    case StopLocalLiveStream
    have "below m (stopLocalLiveStream m)"
      using refl by (rule below_step) (simp add: shrinks_eq)
    then show ?thesis
      using e StopLocalLiveStream by (simp add: below_shape stopLocalLiveStream_def)
  next
    case (StationLivestreamStart same)
    show ?thesis
    proof (cases same)
      case True
      then show ?thesis
        using onStationLivestreamStart_shape [OF assms, of now] e StationLivestreamStart by simp
    next
      case False
      then show ?thesis
        using refl e StationLivestreamStart by (simp add: below_shape)
    qed
  next
    case (StationLivestreamStop same)
    then show ?thesis
      using onStationLivestreamStop_below [OF refl, of now] refl e by (simp add: below_shape)
  next
    case (VideoData data pr)
    then show ?thesis
      using onVideoData_below [OF refl, of data pr now] refl e by (simp add: below_shape)
  next
    case (AudioData data)
    then show ?thesis
      using onAudioData_below [OF refl, of data] refl e by (simp add: below_shape)
  next
    case StreamErrorOrEnd
    then show ?thesis
      using onStreamErrorOrEnd_below [OF refl, of now] refl e by (simp add: below_shape)
  next
    case (VideoRead r k)
    have "livestreamCount (step (now, VideoRead r k) m) = livestreamCount m"
    proof (cases "find (\<lambda>p. oid p = r) (proxyStreams m)")
      case None
      then show ?thesis by simp
    next
      case (Some p)
      obtain v m1 where vr: "video_read k now (videostream p) m = (v, m1)"
        by (cases "video_read k now (videostream p) m")
      have "livestreamCount m1 = livestreamCount m"
        using count_video_read [of k now "videostream p" m] vr by simp
      then show ?thesis using Some vr by simp
    qed
    then show ?thesis
      using video_read_step_below [OF assms, of now r k] e VideoRead
      by (intro below_shape) simp_all
  next
    case (AudioRead r k)
    have "livestreamCount (step (now, AudioRead r k) m) = livestreamCount m"
      by (simp split: option.splits)
    then show ?thesis
      using audio_read_step_below [OF assms, of now r k] e AudioRead
      by (intro below_shape) simp_all
  next
    case (TimerFires h)
    have "livestreamCount (step (now, TimerFires h) m) = livestreamCount m"
      by (simp add: clearTimeout_def split: option.splits)
    then show ?thesis
      using timer_step_below [OF assms, of now h] e TimerFires
      by (intro below_shape) simp_all
  qed
qed

subsection \<open>Runs\<close>

lemma exec_snoc: "exec (es @ [e]) m = step e (exec es m)"
  by (simp add: exec_def)

lemma handed_out_snoc:
  "handed_out (es @ [e]) m = handed_out es m + length (issued e (exec es m))"
  by (induction es arbitrary: m) (simp_all add: exec_def)

lemma issued_issue: "issued e m = issue (length (issued e m)) (livestreamCount m)"
proof -
  obtain now ev where e: "e = (now, ev)" by (cases e)
  show ?thesis unfolding e by (cases ev) simp_all
qed

lemma run_shape_step:
  assumes "run_shape m1 k m"
  shows "run_shape m1 (k + length (issued e m)) (step e m)"
proof -
  let ?r = "nextRef m1" and ?c = "livestreamCount m1" and ?j = "length (issued e m)"
  have ok: "refs_ok m" and r: "?r \<le> nextRef m"
    and c: "livestreamCount m = (nextCount ^^ k) ?c"
    and new: "subseq (map snd (filter (\<lambda>x. ?r \<le> fst x) (keys m))) (issue k ?c)"
    and old: "subseq (filter (\<lambda>x. fst x < ?r) (keys m)) (keys m1)"
    using assms by (simp_all add: run_shape_def)
  obtain ks nk where s: "keys (step e m) = ks @ nk" "subseq ks (keys m)"
    "map snd nk = issued e m" "\<forall>x \<in> set nk. nextRef m \<le> fst x"
    and ok': "refs_ok (step e m)" and r': "nextRef m \<le> nextRef (step e m)"
    and c': "livestreamCount (step e m) = (nextCount ^^ ?j) (livestreamCount m)"
    using step_shape_step [OF ok, of e] unfolding step_shape_def by blast
  have nk_new: "filter (\<lambda>x. ?r \<le> fst x) nk = nk" "filter (\<lambda>x. fst x < ?r) nk = []"
    using s(4) r by (auto simp: filter_id_conv filter_empty_conv)
  have "subseq (map snd (filter (\<lambda>x. ?r \<le> fst x) ks)) (issue k ?c)"
    using subseq_map [OF subseq_filter [OF s(2)], of snd "\<lambda>x. ?r \<le> fst x"] new
    by (rule subseq_order.order_trans)
  moreover have "map snd nk = issue ?j ((nextCount ^^ k) ?c)"
    using s(3) issued_issue [of e m] c by simp
  ultimately have "subseq (map snd (filter (\<lambda>x. ?r \<le> fst x) ks) @ map snd nk)
                          (issue k ?c @ issue ?j ((nextCount ^^ k) ?c))"
    by (simp add: list_emb_append_mono)
  then have new': "subseq (map snd (filter (\<lambda>x. ?r \<le> fst x) (keys (step e m))))
                          (issue (k + ?j) ?c)"
    by (simp add: s(1) nk_new issue_add)
  have "subseq (filter (\<lambda>x. fst x < ?r) ks) (keys m1)"
    using subseq_filter [OF s(2), of "\<lambda>x. fst x < ?r"] old
    by (rule subseq_order.order_trans)
  then have old': "subseq (filter (\<lambda>x. fst x < ?r) (keys (step e m))) (keys m1)"
    by (simp add: s(1) nk_new)
  have "(nextCount ^^ (?j + k)) ?c = (nextCount ^^ ?j) ((nextCount ^^ k) ?c)"
    by (simp add: funpow_add)
  then have "livestreamCount (step e m) = (nextCount ^^ (k + ?j)) ?c"
    using c c' by (simp add: add.commute)
  then show ?thesis
    using ok' r r' new' old' by (simp add: run_shape_def)
qed

lemma run_shape_exec:
  assumes "refs_ok m1"
  shows "run_shape m1 (handed_out es m1) (exec es m1)"
proof (induction es rule: rev_induct)
  case Nil
  have "filter (\<lambda>x. nextRef m1 \<le> fst x) (keys m1) = []"
    using assms by (auto simp: refs_ok_def filter_empty_conv)
  then show ?case using assms by (simp add: run_shape_def exec_def)
next
  case (snoc e es)
  then show ?case
    using run_shape_step [of m1 "handed_out es m1" "exec es m1" e]
    by (simp add: exec_snoc handed_out_snoc)
qed

lemma refs_ok_new_manager: "refs_ok (new_manager cache maxDuration)"
  by (simp add: refs_ok_def keys_def new_manager_def initialize_def new_array_def
      clearIfSet_def Let_def)

lemma refs_ok_exec: "refs_ok m \<Longrightarrow> refs_ok (exec es m)"
  using run_shape_exec [of m es] by (simp add: run_shape_def)

lemma attached_since_ids:
  "map ps_id (attached_since m1 m) = map snd (filter (\<lambda>x. nextRef m1 \<le> fst x) (keys m))"
  by (simp add: attached_since_def keys_def filter_map comp_def)

text \<open>
  C9, as the code has it: take any run from the constructor and any later stretch of it
  in which at most 1025 identifiers are handed out. The pairs attached during that
  stretch and still attached at its end have pairwise distinct identifiers, however often
  the counter has wrapped before or within the stretch; a run that hands out at most 1025
  identifiers in all has pairwise distinct identifiers throughout. The counter runs
  through 0 to 1024 and starts again at 0 without looking at the attached set.
\<close>

theorem identifiers_distinct_within_1025_attaches:
  assumes "handed_out es2 (exec es1 (new_manager cache maxDuration)) \<le> 1025"
  shows "distinct (map ps_id (attached_since (exec es1 (new_manager cache maxDuration))
                     (exec (es1 @ es2) (new_manager cache maxDuration)))) \<and>
         (es1 = [] \<longrightarrow>
            distinct (map ps_id (proxyStreams (exec es2 (new_manager cache maxDuration)))))"
proof -
  let ?m0 = "new_manager cache maxDuration"
  let ?m1 = "exec es1 ?m0"
  let ?m2 = "exec es2 ?m1"
  have ok: "refs_ok ?m1"
    using refs_ok_new_manager by (rule refs_ok_exec)
  have sh: "run_shape ?m1 (handed_out es2 ?m1) ?m2"
    using ok by (rule run_shape_exec)
  have d: "distinct (issue (handed_out es2 ?m1) (livestreamCount ?m1))"
    using assms by (rule distinct_issue)
  have a: "distinct (map ps_id (attached_since ?m1 ?m2))"
    using sh d unfolding attached_since_ids run_shape_def by (meson subseq_distinct)
  have b: "distinct (map ps_id (proxyStreams ?m2))" if "es1 = []"
  proof -
    have m1: "?m1 = ?m0" using that by (simp add: exec_def)
    have "keys ?m0 = []"
      by (simp add: keys_def new_manager_def initialize_def new_array_def clearIfSet_def Let_def)
    moreover have "subseq (filter (\<lambda>x. fst x < nextRef ?m1) (keys ?m2)) (keys ?m1)"
      using sh by (simp add: run_shape_def)
    ultimately have "filter (\<lambda>x. fst x < nextRef ?m1) (keys ?m2) = []"
      by (simp add: m1)
    then have "filter (\<lambda>x. nextRef ?m1 \<le> fst x) (keys ?m2) = keys ?m2"
      by (auto simp: filter_empty_conv filter_id_conv not_less)
    then have "map ps_id (attached_since ?m1 ?m2) = map ps_id (proxyStreams ?m2)"
      unfolding attached_since_ids by (simp add: keys_def comp_def)
    then show ?thesis using a by simp
  qed
  show ?thesis
    using a b by (auto simp: exec_def)
qed

theorem identifiers_distinct_within_1025_attaches_witness:
  "handed_out [(10, GetLocalLivestream), (20, StopProxyStream 0), (30, GetLocalLivestream)]
     one_consumer \<le> 1025 \<and>
   distinct (map ps_id (attached_since one_consumer
     (exec ([(0, GetLocalLivestream), (0, StationLivestreamStart True)] @
            [(10, GetLocalLivestream), (20, StopProxyStream 0), (30, GetLocalLivestream)])
        (new_manager True (Num 100))))) \<and>
   handed_out [(0, GetLocalLivestream), (0, StationLivestreamStart True),
     (10, GetLocalLivestream), (30, GetLocalLivestream)] (new_manager True (Num 100)) \<le> 1025 \<and>
   distinct (map ps_id (proxyStreams (exec [(0, GetLocalLivestream),
     (0, StationLivestreamStart True), (10, GetLocalLivestream), (30, GetLocalLivestream)]
     (new_manager True (Num 100))))) \<and>
   map ps_id (proxyStreams (exec [(0, GetLocalLivestream),
     (0, StationLivestreamStart True), (10, GetLocalLivestream), (30, GetLocalLivestream)]
     (new_manager True (Num 100)))) = [0, 1, 2]"
proof -
  have a: "handed_out [(10, GetLocalLivestream), (20, StopProxyStream 0),
             (30, GetLocalLivestream)]
             (exec [(0, GetLocalLivestream), (0, StationLivestreamStart True)]
                (new_manager True (Num 100))) \<le> 1025"
    by (simp add: model_defs)
  have b: "handed_out ([(0, GetLocalLivestream), (0, StationLivestreamStart True),
             (10, GetLocalLivestream), (30, GetLocalLivestream)])
             (exec [] (new_manager True (Num 100))) \<le> 1025"
    by (simp add: model_defs)
  have c: "map ps_id (proxyStreams (exec [(0, GetLocalLivestream),
     (0, StationLivestreamStart True), (10, GetLocalLivestream), (30, GetLocalLivestream)]
     (new_manager True (Num 100)))) = [0, 1, 2]"
    by (simp add: model_defs)
  show ?thesis
    using identifiers_distinct_within_1025_attaches [OF a]
      identifiers_distinct_within_1025_attaches [OF b] a b c
    by (simp add: one_consumer_def exec_def)
qed

lemma exec_append: "exec (xs @ ys) m = exec ys (exec xs m)"
  by (simp add: exec_def)

lemma attach_detach_cycle:
  assumes "stationStream m" and "proxyStreams m = [p0]" and "ps_id p0 = 0"
    and "oid p0 < nextRef m" and "livestreamCount m = i" and "0 < i"
  shows "stationStream (exec (attach_detach i) m) \<and>
         proxyStreams (exec (attach_detach i) m) = [p0] \<and>
         oid p0 < nextRef (exec (attach_detach i) m) \<and>
         livestreamCount (exec (attach_detach i) m) = nextCount i"
  using assms
  by (simp add: attach_detach_def model_defs nextCount_def split: option.splits)

lemma attach_detach_cycles:
  assumes "stationStream m" and "proxyStreams m = [p0]" and "ps_id p0 = 0"
    and "oid p0 < nextRef m" and "livestreamCount m = a" and "0 < a" and "a + n \<le> 1024"
  shows "stationStream (exec (concat (map attach_detach [a..<a + n])) m) \<and>
         proxyStreams (exec (concat (map attach_detach [a..<a + n])) m) = [p0] \<and>
         oid p0 < nextRef (exec (concat (map attach_detach [a..<a + n])) m) \<and>
         livestreamCount (exec (concat (map attach_detach [a..<a + n])) m) = a + n"
  using assms
proof (induction n arbitrary: a m)
  case 0
  then show ?case by (simp add: exec_def)
next
  case (Suc n)
  let ?m1 = "exec (attach_detach a) m"
  have c: "stationStream ?m1 \<and> proxyStreams ?m1 = [p0] \<and> oid p0 < nextRef ?m1 \<and>
        livestreamCount ?m1 = nextCount a"
    using Suc.prems by (intro attach_detach_cycle) simp_all
  have n: "nextCount a = Suc a" using Suc.prems by (simp add: nextCount_def)
  have l: "[a..<a + Suc n] = a # [Suc a..<Suc a + n]"
    by (simp add: upt_conv_Cons)
  have "exec (concat (map attach_detach [a..<a + Suc n])) m =
        exec (concat (map attach_detach [Suc a..<Suc a + n])) ?m1"
    by (simp only: l list.map concat.simps exec_append)
  moreover have "stationStream (exec (concat (map attach_detach [Suc a..<Suc a + n])) ?m1) \<and>
         proxyStreams (exec (concat (map attach_detach [Suc a..<Suc a + n])) ?m1) = [p0] \<and>
         oid p0 < nextRef (exec (concat (map attach_detach [Suc a..<Suc a + n])) ?m1) \<and>
         livestreamCount (exec (concat (map attach_detach [Suc a..<Suc a + n])) ?m1) = Suc a + n"
    using c n Suc.prems by (intro Suc.IH) simp_all
  ultimately show ?case by simp
qed

lemma one_consumer_nextRef: "nextRef one_consumer = 3"
  by (simp add: one_consumer_def model_defs)

text \<open>
  C9 as stated fails once a pair outlives 1025 later attaches: the first consumer stays
  attached with identifier 0 while 1024 others attach and detach; the counter passes 1024
  and returns to 0, and the next consumer is given 0 again.
\<close>

theorem identifier_reused_after_wraparound:
  "\<not> distinct (map ps_id (proxyStreams (exec wraparound_run one_consumer)))"
proof -
  let ?p0 = "\<lparr>oid = 2, ps_id = 0,
       videostream = \<lparr>livestreamId = 0, v_cacheData = 1, v_killTimeout = Some 1,
         v_pushNewDataImmediately = False, v_destroyed = False, v_delivered = []\<rparr>,
       audiostream = new_AudiostreamProxy\<rparr>"
  let ?m1 = "exec (concat (map attach_detach [1..<1 + 1023])) one_consumer"
  have a: "stationStream ?m1 \<and> proxyStreams ?m1 = [?p0] \<and> oid ?p0 < nextRef ?m1 \<and>
           livestreamCount ?m1 = 1 + 1023"
    by (intro attach_detach_cycles) (simp_all add: one_consumer_eval one_consumer_nextRef)
  let ?m2 = "exec (attach_detach 1024) ?m1"
  have b: "stationStream ?m2 \<and> proxyStreams ?m2 = [?p0] \<and> oid ?p0 < nextRef ?m2 \<and>
           livestreamCount ?m2 = nextCount 1024"
    using a by (intro attach_detach_cycle) simp_all
  have "[1..<1025] = [1..<1 + 1023] @ [1024]"
    using upt_Suc_append [of 1 1024] by simp
  then have "exec wraparound_run one_consumer = getLocalLivestream 1025 ?m2"
    by (simp only: wraparound_run_def map_append concat_append exec_append)
       (simp add: exec_def)
  moreover have "ids (getLocalLivestream 1025 ?m2) = ids ?m2 @ [livestreamCount ?m2]"
    using getLocalLivestream_keys(1) [where now = 1025 and m = ?m2] b by (simp add: ids_keys)
  ultimately have "ids (exec wraparound_run one_consumer) = [0, 0]"
    using b by (simp add: ids_def nextCount_def)
  then show ?thesis by (simp add: ids_def)
qed


section \<open>Key-frame classifier: properties\<close>

text \<open>
  C7: a buffer is classified as a key frame exactly when it has at least 5 bytes and the
  byte at offset 3 or the byte at offset 4 is one of 64, 66, 68, 78, 101, 103; a buffer
  shorter than 5 bytes is never a key frame.
\<close>

theorem isIFrame_iff:
  "(isIFrame data \<longleftrightarrow>
      5 \<le> length data \<and>
      (unat (data ! 3) \<in> {64, 66, 68, 78, 101, 103} \<or>
       unat (data ! 4) \<in> {64, 66, 68, 78, 101, 103})) \<and>
   (length data < 5 \<longrightarrow> \<not> isIFrame data)"
  by (auto simp: isIFrame_def array_includes_def validValues_def Let_def)

theorem isIFrame_iff_witness:
  "isIFrame [0, 0, 0, 1, 103, 7] \<and> \<not> isIFrame [0, 0, 1, 103] \<and> \<not> isIFrame [0, 0, 0, 1, 65, 7]"
  using isIFrame_iff [of "[0, 0, 0, 1, 103, 7]"] isIFrame_iff [of "[0, 0, 1, 103]"]
    isIFrame_iff [of "[0, 0, 0, 1, 65, 7]"]
  by simp

end
